theory Spec2Isabelle
  imports Main
begin

section \<open>Authentication and authorization core of the message broker (server/auth.go)\<close>

subsection \<open>Data model\<close>

text \<open>
  Addresses of heap objects. A Go pointer is an \<open>addr option\<close>, \<open>None\<close> being nil.
\<close>

type_synonym addr = nat

text \<open>
  The connection options the wire layer decoded from CONNECT. Only the fields that
  auth.go reads are kept: \<open>c.opts.Authorization\<close>, \<open>c.opts.Username\<close>,
  \<open>c.opts.Password\<close>, \<open>c.opts.Nkey\<close>, \<open>c.opts.Sig\<close>.
\<close>

record clientOpts =
  co_Authorization :: string
  co_Username :: string
  co_Password :: string
  co_Nkey :: string
  co_Sig :: string

text \<open>\<open>type NkeyUser struct\<close> and \<open>type User struct\<close>; \<open>Permissions\<close> is a pointer.\<close>

record NkeyUser =
  nk_Nkey :: string
  nk_Permissions :: "addr option"

record User =
  u_Username :: string
  u_Password :: string
  u_Permissions :: "addr option"

text \<open>
  A subscription as removeUnauthorizedSubs uses it: the owning connection (the identity of
  the Go pointer), \<open>sub.subject\<close> and \<open>sub.sid\<close>.
\<close>

record subscription =
  sub_client :: nat
  sub_subject :: string
  sub_sid :: string

text \<open>
  The connection. \<open>'p\<close> is the type of the bound permission object (\<open>c.perms\<close>), which
  auth.go only tests against nil. \<open>c_subs\<close> is the map \<open>c.subs\<close> from sid to
  subscription, \<open>c_out\<close> the error notices handed to \<open>c.sendErr\<close>, oldest first.
\<close>

record 'p client =
  c_opts :: clientOpts
  c_nonce :: string
  c_perms :: "'p option"
  c_subs :: "string \<rightharpoonup> subscription"
  c_out :: "string list"

text \<open>
  The options snapshot. An \<open>Authentication\<close> interface value is its \<open>Check\<close> method, nil
  is \<open>None\<close>. A slice that may be nil is a \<open>list option\<close>.
\<close>

record ClusterOpts =
  cl_Username :: string
  cl_Password :: string

record 'p Options =
  o_CustomClientAuthentication :: "('p client \<Rightarrow> bool) option"
  o_CustomRouterAuthentication :: "('p client \<Rightarrow> bool) option"
  o_Nkeys :: "NkeyUser list option"
  o_Users :: "User list option"
  o_Username :: string
  o_Password :: string
  o_Authorization :: string
  o_Cluster :: ClusterOpts

record Info =
  AuthRequired :: bool

text \<open>
  The server state auth.go touches: \<open>s.opts\<close> (a pointer, tested against nil),
  \<open>s.info\<close>, the maps \<open>s.nkeys\<close> and \<open>s.users\<close> (nil or a map) and the routing
  index \<open>s.sl\<close>. The maps hold records, never nil pointers: configureAuthorization, which
  alone fills them, reads a field of every entry it stores.
\<close>

record 'p Server =
  s_opts :: "'p Options option"
  s_info :: Info
  s_nkeys :: "(string \<rightharpoonup> NkeyUser) option"
  s_users :: "(string \<rightharpoonup> User) option"
  s_sl :: "subscription set"

text \<open>
  The library calls of auth.go, taken as parameters:
  \<open>bcrypt.CompareHashAndPassword\<close> (true when it returns no error),
  \<open>base64.StdEncoding.DecodeString\<close>, \<open>nkeys.FromPublicKey\<close> (\<open>None\<close> when they
  return an error) and \<open>pub.Verify(nonce, sig)\<close> (true when it returns no error).
\<close>

record 'k libs =
  bcryptCompareHashAndPassword :: "string \<Rightarrow> string \<Rightarrow> bool"
  base64DecodeString :: "string \<Rightarrow> string option"
  nkeysFromPublicKey :: "string \<Rightarrow> 'k option"
  nkeysVerify :: "'k \<Rightarrow> string \<Rightarrow> string \<Rightarrow> bool"

datatype panic = NilPointerDereference

subsection \<open>Secret comparison\<close>

definition bcryptPrefix :: string where
  "bcryptPrefix = ''$2a$''"

definition isBcrypt :: "string \<Rightarrow> bool" where
  "isBcrypt password = (take (length bcryptPrefix) password = bcryptPrefix)"

definition comparePasswords :: "'k libs \<Rightarrow> string \<Rightarrow> string \<Rightarrow> bool" where
  "comparePasswords L serverPassword clientPassword =
     (if isBcrypt serverPassword then
        (if \<not> bcryptCompareHashAndPassword L serverPassword clientPassword then False
         else True)
      else if serverPassword \<noteq> clientPassword then False
      else True)"

subsection \<open>configureAuthorization\<close>

text \<open>The loops \<open>for _, u := range opts.Nkeys { s.nkeys[u.Nkey] = u }\<close> and its twin.\<close>

fun fillNkeys :: "NkeyUser list \<Rightarrow> (string \<rightharpoonup> NkeyUser) \<Rightarrow> (string \<rightharpoonup> NkeyUser)" where
  "fillNkeys [] m = m"
| "fillNkeys (u # us) m = fillNkeys us (m(nk_Nkey u \<mapsto> u))"

fun fillUsers :: "User list \<Rightarrow> (string \<rightharpoonup> User) \<Rightarrow> (string \<rightharpoonup> User)" where
  "fillUsers [] m = m"
| "fillUsers (u # us) m = fillUsers us (m(u_Username u \<mapsto> u))"

definition setAuthRequired :: "bool \<Rightarrow> 'p Server \<Rightarrow> 'p Server" where
  "setAuthRequired b s = s\<lparr>s_info := (s_info s)\<lparr>AuthRequired := b\<rparr>\<rparr>"

definition configureAuthorization :: "'p Server \<Rightarrow> 'p Server" where
  "configureAuthorization s =
     (case s_opts s of
        None \<Rightarrow> s
      | Some opts \<Rightarrow>
          if o_CustomClientAuthentication opts \<noteq> None then setAuthRequired True s
          else if o_Nkeys opts \<noteq> None \<or> o_Users opts \<noteq> None then
            (let s1 = (case o_Nkeys opts of
                         None \<Rightarrow> s
                       | Some ks \<Rightarrow> s\<lparr>s_nkeys := Some (fillNkeys ks Map.empty)\<rparr>);
                 s2 = (case o_Users opts of
                         None \<Rightarrow> s1
                       | Some us \<Rightarrow> s1\<lparr>s_users := Some (fillUsers us Map.empty)\<rparr>)
             in setAuthRequired True s2)
          else if o_Username opts \<noteq> [] \<or> o_Authorization opts \<noteq> [] then
            setAuthRequired True s
          else setAuthRequired False (s\<lparr>s_users := None\<rparr>))"

subsection \<open>isClientAuthorized\<close>

text \<open>
  The five strategies. \<open>consulted\<close> in the outcome lists, in order, the strategies whose
  check the call executed: the callback's \<open>Check\<close>, the lookup in \<open>s.nkeys\<close>, the lookup
  in \<open>s.users\<close>, the comparison with the shared token, the comparison with the shared
  username. \<open>registered\<close> is the argument of the call \<open>c.RegisterUser(user)\<close>, if
  the call was made.
\<close>

datatype strategy = Custom | PublicKey | PerUser | SharedToken | SharedUserPass

record outcome =
  accepted :: bool
  registered :: "User option"
  consulted :: "strategy list"

text \<open>Reading a Go map that may be nil: a nil map has no key.\<close>

definition mapLookup :: "('a \<rightharpoonup> 'b) option \<Rightarrow> 'a \<Rightarrow> 'b option" where
  "mapLookup m k = (case m of None \<Rightarrow> None | Some t \<Rightarrow> t k)"

definition isClientAuthorized ::
  "'k libs \<Rightarrow> 'p Server \<Rightarrow> 'p client \<Rightarrow> panic + outcome" where
  "isClientAuthorized L s c =
     (case s_opts s of
        None \<Rightarrow> Inl NilPointerDereference
      | Some opts \<Rightarrow>
          (case o_CustomClientAuthentication opts of
             Some check \<Rightarrow>
               Inr \<lparr>accepted = check c, registered = None, consulted = [Custom]\<rparr>
           | None \<Rightarrow>
               if \<not> AuthRequired (s_info s) then
                 Inr \<lparr>accepted = True, registered = None, consulted = []\<rparr>
               else if s_nkeys s \<noteq> None \<and> co_Nkey (c_opts c) \<noteq> [] then
                 (case mapLookup (s_nkeys s) (co_Nkey (c_opts c)) of
                    None \<Rightarrow> Inr \<lparr>accepted = False, registered = None, consulted = [PublicKey]\<rparr>
                  | Some nkey \<Rightarrow>
                      Inr \<lparr>accepted =
                             (if co_Sig (c_opts c) = [] then False
                              else (case base64DecodeString L (co_Sig (c_opts c)) of
                                      None \<Rightarrow> False
                                    | Some sig \<Rightarrow>
                                        (case nkeysFromPublicKey L (co_Nkey (c_opts c)) of
                                           None \<Rightarrow> False
                                         | Some pub \<Rightarrow>
                                             if \<not> nkeysVerify L pub (c_nonce c) sig then False
                                             else True))),
                           registered = None, consulted = [PublicKey]\<rparr>)
               else if s_users s \<noteq> None \<and> co_Username (c_opts c) \<noteq> [] then
                 (case mapLookup (s_users s) (co_Username (c_opts c)) of
                    None \<Rightarrow> Inr \<lparr>accepted = False, registered = None, consulted = [PerUser]\<rparr>
                  | Some user \<Rightarrow>
                      (let ok = comparePasswords L (u_Password user) (co_Password (c_opts c))
                       in Inr \<lparr>accepted = ok,
                               registered = (if ok then Some user else None),
                               consulted = [PerUser]\<rparr>))
               else if o_Authorization opts \<noteq> [] then
                 Inr \<lparr>accepted = comparePasswords L (o_Authorization opts)
                                    (co_Authorization (c_opts c)),
                      registered = None, consulted = [SharedToken]\<rparr>
               else if o_Username opts \<noteq> [] then
                 Inr \<lparr>accepted =
                        (if o_Username opts \<noteq> co_Username (c_opts c) then False
                         else comparePasswords L (o_Password opts) (co_Password (c_opts c))),
                      registered = None, consulted = [SharedUserPass]\<rparr>
               else Inr \<lparr>accepted = False, registered = None, consulted = []\<rparr>))"

subsection \<open>isRouterAuthorized\<close>

definition isRouterAuthorized :: "'k libs \<Rightarrow> 'p Server \<Rightarrow> 'p client \<Rightarrow> panic + bool" where
  "isRouterAuthorized L s c =
     (case s_opts s of
        None \<Rightarrow> Inl NilPointerDereference
      | Some opts \<Rightarrow>
          (case o_CustomRouterAuthentication opts of
             Some check \<Rightarrow> Inr (check c)
           | None \<Rightarrow>
               if cl_Username (o_Cluster opts) = [] then Inr True
               else if cl_Username (o_Cluster opts) \<noteq> co_Username (c_opts c) then Inr False
               else if \<not> comparePasswords L (cl_Password (o_Cluster opts))
                           (co_Password (c_opts c)) then Inr False
               else Inr True))"

subsection \<open>removeUnauthorizedSubs\<close>

text \<open>
  Modelled from the spec: \<open>c.canSubscribe\<close> (client.go) is the permission model's
  \<open>allows(subscribe, subject)\<close> on the connection's current bound PermissionSet, an absent
  set permitting everything. The pattern matching it delegates to is the parameter
  \<open>allows\<close>.
\<close>

definition canSubscribe :: "('p \<Rightarrow> string \<Rightarrow> bool) \<Rightarrow> 'p client \<Rightarrow> string \<Rightarrow> bool" where
  "canSubscribe allows c subject =
     (case c_perms c of None \<Rightarrow> True | Some p \<Rightarrow> allows p subject)"

text \<open>
  Modelled from the spec: \<open>s.sl.Remove\<close> (sublist.go) is the routing engine's
  remove; the index is the set of the subscriptions it holds. Its error result is
  discarded by the caller (\<open>_ = s.sl.Remove(sub)\<close>).
\<close>

definition slRemove :: "subscription \<Rightarrow> subscription set \<Rightarrow> subscription set" where
  "slRemove sub sl = sl - {sub}"

text \<open>
  Modelled from the spec: \<open>c.sendErr\<close> (client.go) hands a protocol-level error
  notification to the connection; \<open>c_out\<close> collects them.
\<close>

definition sendErr :: "string \<Rightarrow> 'p client \<Rightarrow> 'p client" where
  "sendErr err c = c\<lparr>c_out := c_out c @ [err]\<rparr>"

text \<open>
  \<open>fmt.Sprintf("Permissions Violation for Subscription to %q (sid %s)", sub.subject, sub.sid)\<close>;
  \<open>quote\<close> is the library's \<open>%q\<close>.
\<close>

definition violationNotice :: "(string \<Rightarrow> string) \<Rightarrow> subscription \<Rightarrow> string" where
  "violationNotice quote sub =
     ''Permissions Violation for Subscription to '' @ quote (sub_subject sub)
       @ '' (sid '' @ sub_sid sub @ '')''"

text \<open>
  The second loop, \<open>for sid, sub := range subs\<close>, over the snapshot \<open>subs\<close>. Go visits
  every key of a map once, in an order it does not fix: the order is the list argument.
  The log line \<open>s.Noticef\<close> is left out.
\<close>

fun sweepSubs ::
  "('p \<Rightarrow> string \<Rightarrow> bool) \<Rightarrow> (string \<Rightarrow> string) \<Rightarrow> (string \<rightharpoonup> subscription) \<Rightarrow> string list
     \<Rightarrow> 'p Server \<times> 'p client \<Rightarrow> 'p Server \<times> 'p client" where
  "sweepSubs allows quote subs [] (s, c) = (s, c)"
| "sweepSubs allows quote subs (sid # rest) (s, c) =
     (case subs sid of
        None \<Rightarrow> sweepSubs allows quote subs rest (s, c)
      | Some sub \<Rightarrow>
          if \<not> canSubscribe allows c (sub_subject sub) then
            sweepSubs allows quote subs rest
              (s\<lparr>s_sl := slRemove sub (s_sl s)\<rparr>,
               sendErr (violationNotice quote sub) (c\<lparr>c_subs := (c_subs c)(sid := None)\<rparr>))
          else sweepSubs allows quote subs rest (s, c))"

text \<open>
  The first loop copies \<open>c.subs\<close> into the snapshot, which is therefore \<open>c_subs c\<close> as
  it is on entry.
\<close>

definition removeUnauthorizedSubs ::
  "('p \<Rightarrow> string \<Rightarrow> bool) \<Rightarrow> (string \<Rightarrow> string) \<Rightarrow> string list
     \<Rightarrow> 'p Server \<Rightarrow> 'p client \<Rightarrow> 'p Server \<times> 'p client" where
  "removeUnauthorizedSubs allows quote order s c =
     (if c_perms c = None then (s, c)
      else sweepSubs allows quote (c_subs c) order (s, c))"

subsection \<open>Permissions and their clone\<close>

text \<open>
  clone is about sharing, so the objects live in a store. A slice \<open>[]string\<close> is a view
  of a backing array: the array's address, the offset of the first element and the length
  (the capacity plays no part in clone). \<open>SubjectPermission\<close> holds two slices, nil being
  \<open>None\<close>; \<open>Permissions\<close> holds two pointers.
\<close>

record slice =
  sl_base :: addr
  sl_off :: nat
  sl_len :: nat

record SubjectPermission =
  Allow :: "slice option"
  Deny :: "slice option"

record Permissions =
  Publish :: "addr option"
  Subscribe :: "addr option"

text \<open>
  The store: backing arrays, \<open>SubjectPermission\<close> objects and \<open>Permissions\<close> objects by
  address, and the next address the allocator hands out. Strings are immutable values.
\<close>

record heap =
  h_arrays :: "addr \<rightharpoonup> string list"
  h_subjperms :: "addr \<rightharpoonup> SubjectPermission"
  h_perms :: "addr \<rightharpoonup> Permissions"
  h_next :: addr

text \<open>
  The elements a slice shows, \<open>None\<close> if it points outside the store, which a Go program
  cannot make happen.
\<close>

definition sliceElems :: "heap \<Rightarrow> slice \<Rightarrow> string list option" where
  "sliceElems h sl =
     (case h_arrays h (sl_base sl) of
        None \<Rightarrow> None
      | Some xs \<Rightarrow>
          if sl_off sl + sl_len sl \<le> length xs
          then Some (take (sl_len sl) (drop (sl_off sl) xs)) else None)"

text \<open>\<open>make([]string, n)\<close>: a fresh array of \<open>n\<close> empty strings.\<close>

definition makeStrings :: "nat \<Rightarrow> heap \<Rightarrow> slice \<times> heap" where
  "makeStrings n h =
     (\<lparr>sl_base = h_next h, sl_off = 0, sl_len = n\<rparr>,
      h\<lparr>h_arrays := (h_arrays h)(h_next h \<mapsto> replicate n []), h_next := Suc (h_next h)\<rparr>)"

text \<open>\<open>copy(dst, src)\<close>: the first \<open>min(len(dst), len(src))\<close> elements of \<open>src\<close> overwrite
  those of \<open>dst\<close> in \<open>dst\<close>'s backing array.\<close>

definition copyStrings :: "slice \<Rightarrow> slice \<Rightarrow> heap \<Rightarrow> heap option" where
  "copyStrings dst src h =
     (case sliceElems h src of
        None \<Rightarrow> None
      | Some vs \<Rightarrow>
          (case h_arrays h (sl_base dst) of
             None \<Rightarrow> None
           | Some d \<Rightarrow>
               if sl_off dst + sl_len dst \<le> length d then
                 (let n = min (sl_len dst) (length vs)
                  in Some (h\<lparr>h_arrays := (h_arrays h)(sl_base dst \<mapsto>
                             take (sl_off dst) d @ take n vs @ drop (sl_off dst + n) d)\<rparr>))
               else None))"

text \<open>\<open>&SubjectPermission{}\<close> and \<open>&Permissions{}\<close>: a fresh object with nil fields.\<close>

definition newSubjectPermission :: "heap \<Rightarrow> addr \<times> heap" where
  "newSubjectPermission h =
     (h_next h,
      h\<lparr>h_subjperms := (h_subjperms h)(h_next h \<mapsto> \<lparr>Allow = None, Deny = None\<rparr>),
        h_next := Suc (h_next h)\<rparr>)"

definition newPermissions :: "heap \<Rightarrow> addr \<times> heap" where
  "newPermissions h =
     (h_next h,
      h\<lparr>h_perms := (h_perms h)(h_next h \<mapsto> \<lparr>Publish = None, Subscribe = None\<rparr>),
        h_next := Suc (h_next h)\<rparr>)"

text \<open>Assignments to a field of the object at an address.\<close>

definition setAllow :: "addr \<Rightarrow> slice option \<Rightarrow> heap \<Rightarrow> heap option" where
  "setAllow a v h =
     (case h_subjperms h a of
        None \<Rightarrow> None
      | Some sp \<Rightarrow> Some (h\<lparr>h_subjperms := (h_subjperms h)(a \<mapsto> sp\<lparr>Allow := v\<rparr>)\<rparr>))"

definition setDeny :: "addr \<Rightarrow> slice option \<Rightarrow> heap \<Rightarrow> heap option" where
  "setDeny a v h =
     (case h_subjperms h a of
        None \<Rightarrow> None
      | Some sp \<Rightarrow> Some (h\<lparr>h_subjperms := (h_subjperms h)(a \<mapsto> sp\<lparr>Deny := v\<rparr>)\<rparr>))"

definition setPublish :: "addr \<Rightarrow> addr option \<Rightarrow> heap \<Rightarrow> heap option" where
  "setPublish a v h =
     (case h_perms h a of
        None \<Rightarrow> None
      | Some pm \<Rightarrow> Some (h\<lparr>h_perms := (h_perms h)(a \<mapsto> pm\<lparr>Publish := v\<rparr>)\<rparr>))"

definition setSubscribe :: "addr \<Rightarrow> addr option \<Rightarrow> heap \<Rightarrow> heap option" where
  "setSubscribe a v h =
     (case h_perms h a of
        None \<Rightarrow> None
      | Some pm \<Rightarrow> Some (h\<lparr>h_perms := (h_perms h)(a \<mapsto> pm\<lparr>Subscribe := v\<rparr>)\<rparr>))"

text \<open>
  The two statements \<open>clone.F = make([]string, len(p.F))\<close> and \<open>copy(clone.F, p.F)\<close>, for
  the field \<open>F\<close> that \<open>setField\<close> assigns.
\<close>

definition cloneStrings ::
  "(addr \<Rightarrow> slice option \<Rightarrow> heap \<Rightarrow> heap option) \<Rightarrow> addr \<Rightarrow> slice \<Rightarrow> heap \<Rightarrow> heap option" where
  "cloneStrings setField clone src h =
     (let (dst, h1) = makeStrings (sl_len src) h
      in Option.bind (setField clone (Some dst) h1) (copyStrings dst src))"

text \<open>\<open>func (p *SubjectPermission) clone()\<close>, returning the clone's address and the store.\<close>

definition SubjectPermission_clone :: "addr option \<Rightarrow> heap \<Rightarrow> (addr option \<times> heap) option" where
  "SubjectPermission_clone p h =
     (case p of
        None \<Rightarrow> Some (None, h)
      | Some a \<Rightarrow>
          (let (clone, h0) = newSubjectPermission h in
           case Option.bind (h_subjperms h0 a) (\<lambda>sp.
                  case Allow sp of
                    None \<Rightarrow> Some h0
                  | Some src \<Rightarrow> cloneStrings setAllow clone src h0) of
             None \<Rightarrow> None
           | Some h1 \<Rightarrow>
               (case Option.bind (h_subjperms h1 a) (\<lambda>sp.
                       case Deny sp of
                         None \<Rightarrow> Some h1
                       | Some src \<Rightarrow> cloneStrings setDeny clone src h1) of
                  None \<Rightarrow> None
                | Some h2 \<Rightarrow> Some (Some clone, h2))))"

text \<open>\<open>func (p *Permissions) clone()\<close>.\<close>

definition Permissions_clone :: "addr option \<Rightarrow> heap \<Rightarrow> (addr option \<times> heap) option" where
  "Permissions_clone p h =
     (case p of
        None \<Rightarrow> Some (None, h)
      | Some a \<Rightarrow>
          (let (clone, h0) = newPermissions h in
           case Option.bind (h_perms h0 a) (\<lambda>pm.
                  if Publish pm \<noteq> None then
                    Option.bind (SubjectPermission_clone (Publish pm) h0)
                      (\<lambda>(q, h1). setPublish clone q h1)
                  else Some h0) of
             None \<Rightarrow> None
           | Some h2 \<Rightarrow>
               (case Option.bind (h_perms h2 a) (\<lambda>pm.
                       if Subscribe pm \<noteq> None then
                         Option.bind (SubjectPermission_clone (Subscribe pm) h2)
                           (\<lambda>(q, h3). setSubscribe clone q h3)
                       else Some h2) of
                  None \<Rightarrow> None
                | Some h4 \<Rightarrow> Some (Some clone, h4))))"

text \<open>
  What a pointer stands for, read through the store: the lists of a slice (nil is
  \<open>None\<close>), the pair of lists of a \<open>SubjectPermission\<close>, the pair of those of a
  \<open>Permissions\<close>. The outer \<open>option\<close> is \<open>None\<close> when something points outside the store.
\<close>

definition sliceValue :: "heap \<Rightarrow> slice option \<Rightarrow> string list option option" where
  "sliceValue h s = (case s of None \<Rightarrow> Some None | Some sl \<Rightarrow> map_option Some (sliceElems h sl))"

type_synonym filterValue = "string list option \<times> string list option"

definition subjectPermissionValue :: "heap \<Rightarrow> addr option \<Rightarrow> filterValue option option" where
  "subjectPermissionValue h p =
     (case p of
        None \<Rightarrow> Some None
      | Some a \<Rightarrow>
          (case h_subjperms h a of
             None \<Rightarrow> None
           | Some sp \<Rightarrow>
               (case (sliceValue h (Allow sp), sliceValue h (Deny sp)) of
                  (Some al, Some dn) \<Rightarrow> Some (Some (al, dn))
                | _ \<Rightarrow> None)))"

definition permissionsValue ::
  "heap \<Rightarrow> addr \<Rightarrow> (filterValue option \<times> filterValue option) option" where
  "permissionsValue h a =
     (case h_perms h a of
        None \<Rightarrow> None
      | Some pm \<Rightarrow>
          (case (subjectPermissionValue h (Publish pm), subjectPermissionValue h (Subscribe pm)) of
             (Some pu, Some su) \<Rightarrow> Some (pu, su)
           | _ \<Rightarrow> None))"

text \<open>The addresses a value is stored at: its objects and its backing arrays.\<close>

definition sliceStorage :: "slice option \<Rightarrow> addr set" where
  "sliceStorage s = (case s of None \<Rightarrow> {} | Some sl \<Rightarrow> {sl_base sl})"

definition subjectPermissionStorage :: "heap \<Rightarrow> addr option \<Rightarrow> addr set" where
  "subjectPermissionStorage h p =
     (case p of
        None \<Rightarrow> {}
      | Some a \<Rightarrow>
          insert a (case h_subjperms h a of
                      None \<Rightarrow> {}
                    | Some sp \<Rightarrow> sliceStorage (Allow sp) \<union> sliceStorage (Deny sp)))"

definition permissionsStorage :: "heap \<Rightarrow> addr \<Rightarrow> addr set" where
  "permissionsStorage h a =
     insert a (case h_perms h a of
                 None \<Rightarrow> {}
               | Some pm \<Rightarrow> subjectPermissionStorage h (Publish pm)
                            \<union> subjectPermissionStorage h (Subscribe pm))"

text \<open>The allocator's invariant: every object in use lies below the next free address.\<close>

definition heapOK :: "heap \<Rightarrow> bool" where
  "heapOK h \<longleftrightarrow>
     dom (h_arrays h) \<subseteq> {..<h_next h} \<and> dom (h_subjperms h) \<subseteq> {..<h_next h}
     \<and> dom (h_perms h) \<subseteq> {..<h_next h}"

text \<open>Two stores hold the same at every address of a set.\<close>

definition sameOn :: "addr set \<Rightarrow> heap \<Rightarrow> heap \<Rightarrow> bool" where
  "sameOn A h h' \<longleftrightarrow>
     (\<forall>a \<in> A. h_arrays h' a = h_arrays h a \<and> h_subjperms h' a = h_subjperms h a
             \<and> h_perms h' a = h_perms h a)"

text \<open>
  What cloning one field leaves behind: of a \<open>SubjectPermission\<close> clone (its new slice \<open>d\<close>
  shows the lists \<open>v\<close>), and of a \<open>Permissions\<close> clone (its new pointer \<open>q\<close> stands for
  \<open>v\<close>). Everything new lies at fresh addresses; nothing older changes but the clone.
\<close>

definition fieldCloned ::
  "heap \<Rightarrow> addr \<Rightarrow> SubjectPermission \<Rightarrow> slice option \<Rightarrow> string list option \<Rightarrow> heap \<Rightarrow> bool" where
  "fieldCloned h clone csp' d v h' \<longleftrightarrow>
     heapOK h' \<and> h_next h \<le> h_next h'
     \<and> h_subjperms h' = (h_subjperms h)(clone \<mapsto> csp')
     \<and> h_perms h' = h_perms h
     \<and> (\<forall>x. x < h_next h \<longrightarrow> h_arrays h' x = h_arrays h x)
     \<and> sliceValue h' d = Some v
     \<and> sliceStorage d \<subseteq> {h_next h..<h_next h'}"

definition pointerCloned ::
  "heap \<Rightarrow> addr \<Rightarrow> Permissions \<Rightarrow> addr option \<Rightarrow> filterValue option \<Rightarrow> heap \<Rightarrow> bool" where
  "pointerCloned h clone cpm' q v h' \<longleftrightarrow>
     heapOK h' \<and> h_next h \<le> h_next h'
     \<and> h_perms h' clone = Some cpm'
     \<and> (\<forall>x. x < h_next h \<and> x \<noteq> clone \<longrightarrow> h_perms h' x = h_perms h x)
     \<and> (\<forall>x. x < h_next h \<longrightarrow> h_arrays h' x = h_arrays h x \<and> h_subjperms h' x = h_subjperms h x)
     \<and> subjectPermissionValue h' q = Some v
     \<and> subjectPermissionStorage h' q \<subseteq> {h_next h..<h_next h'}"

subsection \<open>The decision chain and the sweep, as the specification words them\<close>

text \<open>
  The priority order of section 4.5 of the specification: which strategy decides for a
  connection. The custom authenticator comes first; then, where the code tests it, a server
  that requires no authentication selects none; then public key, per-user table, shared
  token, shared username and password.
\<close>

definition strategyFor :: "'p Server \<Rightarrow> 'p client \<Rightarrow> strategy option" where
  "strategyFor s c =
     (case s_opts s of
        None \<Rightarrow> None
      | Some opts \<Rightarrow>
          if o_CustomClientAuthentication opts \<noteq> None then Some Custom
          else if \<not> AuthRequired (s_info s) then None
          else if s_nkeys s \<noteq> None \<and> co_Nkey (c_opts c) \<noteq> [] then Some PublicKey
          else if s_users s \<noteq> None \<and> co_Username (c_opts c) \<noteq> [] then Some PerUser
          else if o_Authorization opts \<noteq> [] then Some SharedToken
          else if o_Username opts \<noteq> [] then Some SharedUserPass
          else None)"

text \<open>Section 4.3: a signature was presented, it and the key decode, and it verifies.\<close>

definition signatureVerifies :: "'k libs \<Rightarrow> 'p client \<Rightarrow> bool" where
  "signatureVerifies L c =
     (co_Sig (c_opts c) \<noteq> [] \<and>
      (case base64DecodeString L (co_Sig (c_opts c)) of
         None \<Rightarrow> False
       | Some sig \<Rightarrow>
           (case nkeysFromPublicKey L (co_Nkey (c_opts c)) of
              None \<Rightarrow> False
            | Some pub \<Rightarrow> nkeysVerify L pub (c_nonce c) sig)))"

text \<open>What each strategy answers by itself, from its own data only.\<close>

fun verdictOf :: "'k libs \<Rightarrow> 'p Server \<Rightarrow> 'p Options \<Rightarrow> 'p client \<Rightarrow> strategy \<Rightarrow> bool" where
  "verdictOf L s opts c Custom =
     (case o_CustomClientAuthentication opts of None \<Rightarrow> False | Some check \<Rightarrow> check c)"
| "verdictOf L s opts c PublicKey =
     (mapLookup (s_nkeys s) (co_Nkey (c_opts c)) \<noteq> None \<and> signatureVerifies L c)"
| "verdictOf L s opts c PerUser =
     (case mapLookup (s_users s) (co_Username (c_opts c)) of
        None \<Rightarrow> False
      | Some user \<Rightarrow> comparePasswords L (u_Password user) (co_Password (c_opts c)))"
| "verdictOf L s opts c SharedToken =
     comparePasswords L (o_Authorization opts) (co_Authorization (c_opts c))"
| "verdictOf L s opts c SharedUserPass =
     (o_Username opts = co_Username (c_opts c)
      \<and> comparePasswords L (o_Password opts) (co_Password (c_opts c)))"

text \<open>
  Section 4.6: the subscriptions of the snapshot that no longer pass, and the state a
  sweep over the keys \<open>order\<close> is to leave behind.
\<close>

definition unauthorized ::
  "('p \<Rightarrow> string \<Rightarrow> bool) \<Rightarrow> 'p \<Rightarrow> (string \<rightharpoonup> subscription) \<Rightarrow> string \<Rightarrow> bool" where
  "unauthorized allows p subs sid =
     (case subs sid of None \<Rightarrow> False | Some sub \<Rightarrow> \<not> allows p (sub_subject sub))"

definition removedSubs ::
  "('p \<Rightarrow> string \<Rightarrow> bool) \<Rightarrow> 'p \<Rightarrow> (string \<rightharpoonup> subscription) \<Rightarrow> string list
     \<Rightarrow> subscription set" where
  "removedSubs allows p subs order =
     {sub. \<exists>sid \<in> set order. subs sid = Some sub \<and> unauthorized allows p subs sid}"

definition keptSubs ::
  "('p \<Rightarrow> string \<Rightarrow> bool) \<Rightarrow> 'p \<Rightarrow> (string \<rightharpoonup> subscription) \<Rightarrow> string list
     \<Rightarrow> (string \<rightharpoonup> subscription) \<Rightarrow> (string \<rightharpoonup> subscription)" where
  "keptSubs allows p subs order cur =
     (\<lambda>sid. if sid \<in> set order \<and> unauthorized allows p subs sid then None else cur sid)"

definition notices ::
  "('p \<Rightarrow> string \<Rightarrow> bool) \<Rightarrow> (string \<Rightarrow> string) \<Rightarrow> 'p \<Rightarrow> (string \<rightharpoonup> subscription)
     \<Rightarrow> string list \<Rightarrow> string list" where
  "notices allows quote p subs order =
     map (\<lambda>sid. violationNotice quote (the (subs sid)))
         (filter (unauthorized allows p subs) order)"

definition sweptState ::
  "('p \<Rightarrow> string \<Rightarrow> bool) \<Rightarrow> (string \<Rightarrow> string) \<Rightarrow> 'p \<Rightarrow> (string \<rightharpoonup> subscription)
     \<Rightarrow> string list \<Rightarrow> 'p Server \<Rightarrow> 'p client \<Rightarrow> 'p Server \<times> 'p client" where
  "sweptState allows quote p subs order s c =
     (s\<lparr>s_sl := s_sl s - removedSubs allows p subs order\<rparr>,
      c\<lparr>c_subs := keptSubs allows p subs order (c_subs c),
        c_out := c_out c @ notices allows quote p subs order\<rparr>)"

subsection \<open>Concrete configurations and connections\<close>

text \<open>
  An instance of the library parameters for evaluating the definitions: the hash of a
  password is the marker and cost followed by the password, and the verifier accepts
  exactly the password a hash was made from; decoding rejects the character \<open>_\<close>, which
  is outside the base64 alphabet; a public key starts with \<open>U\<close>; a signature is the key
  followed by the signed bytes.
\<close>

definition exampleLibs :: "string libs" where
  "exampleLibs =
     \<lparr>bcryptCompareHashAndPassword = (\<lambda>h p. h = ''$2a$11$'' @ p),
      base64DecodeString = (\<lambda>t. if CHR ''_'' \<in> set t then None else Some t),
      nkeysFromPublicKey = (\<lambda>k. if take 1 k = ''U'' then Some k else None),
      nkeysVerify = (\<lambda>pub nonce sig. sig = pub @ nonce)\<rparr>"

text \<open>In the examples a bound permission object is the list of the subjects it allows.\<close>

definition allowsListed :: "string list \<Rightarrow> string \<Rightarrow> bool" where
  "allowsListed p subject = (subject \<in> set p)"

definition quoteAscii :: "string \<Rightarrow> string" where
  "quoteAscii t = CHR 0x22 # t @ [CHR 0x22]"

definition noOptions :: "string list Options" where
  "noOptions =
     \<lparr>o_CustomClientAuthentication = None, o_CustomRouterAuthentication = None,
      o_Nkeys = None, o_Users = None, o_Username = [], o_Password = [],
      o_Authorization = [], o_Cluster = \<lparr>cl_Username = [], cl_Password = []\<rparr>\<rparr>"

text \<open>A server started with the given options: nothing configured before.\<close>

definition newServer :: "string list Options \<Rightarrow> string list Server" where
  "newServer opts =
     configureAuthorization
       \<lparr>s_opts = Some opts, s_info = \<lparr>AuthRequired = False\<rparr>,
        s_nkeys = None, s_users = None, s_sl = {}\<rparr>"

definition connecting :: "clientOpts \<Rightarrow> string \<Rightarrow> string list client" where
  "connecting co n =
     \<lparr>c_opts = co, c_nonce = n, c_perms = None, c_subs = Map.empty, c_out = []\<rparr>"

definition noCredentials :: clientOpts where
  "noCredentials =
     \<lparr>co_Authorization = [], co_Username = [], co_Password = [], co_Nkey = [], co_Sig = []\<rparr>"

text \<open>The set-ups of nkey_test.go: one public key; one public key and the user derek.\<close>

definition nkeyOptions :: "string list Options" where
  "nkeyOptions = noOptions\<lparr>o_Nkeys := Some [\<lparr>nk_Nkey = ''UDKT'', nk_Permissions = Some 7\<rparr>]\<rparr>"

definition mixedOptions :: "string list Options" where
  "mixedOptions = nkeyOptions\<lparr>o_Users :=
      Some [\<lparr>u_Username = ''derek'', u_Password = ''foo'', u_Permissions = None\<rparr>]\<rparr>"

text \<open>A CONNECT that presents the key, a good signature of the nonce, and derek's password.\<close>

definition signedConnect :: "string list client" where
  "signedConnect =
     connecting (noCredentials\<lparr>co_Nkey := ''UDKT'', co_Sig := ''UDKTnonce1'',
                               co_Username := ''derek'', co_Password := ''foo''\<rparr>) ''nonce1''"

definition emptyPasswordOptions :: "string list Options" where
  "emptyPasswordOptions = noOptions\<lparr>o_Username := ''derek''\<rparr>"

definition routeOptions :: "string list Options" where
  "routeOptions = noOptions\<lparr>o_Cluster := \<lparr>cl_Username = ''ruser'', cl_Password = ''top''\<rparr>\<rparr>"

definition customRouteOptions :: "string list Options" where
  "customRouteOptions =
     routeOptions\<lparr>o_CustomRouterAuthentication := Some (\<lambda>c. co_Username (c_opts c) = ''peer'')\<rparr>"

definition routeConnect :: "string list client" where
  "routeConnect =
     connecting (noCredentials\<lparr>co_Username := ''ruser'', co_Password := ''top''\<rparr>) []"

text \<open>A connection allowed \<open>a.b\<close> only, holding a subscription to it and one to \<open>secret.x\<close>.\<close>

definition subAB :: subscription where
  "subAB = \<lparr>sub_client = 1, sub_subject = ''a.b'', sub_sid = ''1''\<rparr>"

definition subSecret :: subscription where
  "subSecret = \<lparr>sub_client = 1, sub_subject = ''secret.x'', sub_sid = ''2''\<rparr>"

definition alice :: "string list client" where
  "alice = (connecting noCredentials [])
             \<lparr>c_perms := Some [''a.b''], c_subs := [''1'' \<mapsto> subAB, ''2'' \<mapsto> subSecret]\<rparr>"

definition hub :: "string list Server" where
  "hub = (newServer noOptions)\<lparr>s_sl := {subAB, subSecret}\<rparr>"

text \<open>
  A store holding one \<open>Permissions\<close> at address 3, whose publish filter allows \<open>a.*\<close> and
  \<open>b\<close> and denies \<open>secret.>\<close>, and whose subscribe filter is nil.
\<close>

definition exampleHeap :: heap where
  "exampleHeap =
     \<lparr>h_arrays = [0 \<mapsto> [''a.*'', ''b''], 1 \<mapsto> [''secret.>'']],
      h_subjperms = [2 \<mapsto> \<lparr>Allow = Some \<lparr>sl_base = 0, sl_off = 0, sl_len = 2\<rparr>,
                           Deny = Some \<lparr>sl_base = 1, sl_off = 0, sl_len = 1\<rparr>\<rparr>],
      h_perms = [3 \<mapsto> \<lparr>Publish = Some 2, Subscribe = None\<rparr>],
      h_next = 4\<rparr>"

section \<open>Properties\<close>

lemmas example_defs = noOptions_def newServer_def connecting_def noCredentials_def
  nkeyOptions_def mixedOptions_def signedConnect_def exampleLibs_def
  emptyPasswordOptions_def routeOptions_def customRouteOptions_def routeConnect_def
  configureAuthorization_def setAuthRequired_def

subsection \<open>Secret comparison\<close>

text \<open>
  Claim C3, as the code has it. comparePasswords verifies with bcrypt when the stored secret
  carries the prefix \<open>$2a$\<close> and compares the strings otherwise, with no path from one to
  the other. Hence, for a plaintext that does not itself start with the prefix, and a hash
  for which the bcrypt verifier accepts exactly that plaintext: the comparison succeeds iff
  the presented secret is the plaintext, whether the plaintext or the hash is stored, and
  presenting the hash against the stored hash is rejected.
\<close>

theorem comparePasswords_hash_equivalence:
  "(comparePasswords L stored presented \<longleftrightarrow>
      (if isBcrypt stored then bcryptCompareHashAndPassword L stored presented
       else stored = presented))
   \<and> (\<not> isBcrypt plain \<and> isBcrypt hash
        \<and> (\<forall>p. bcryptCompareHashAndPassword L hash p \<longleftrightarrow> p = plain) \<longrightarrow>
        (comparePasswords L plain presented \<longleftrightarrow> presented = plain)
        \<and> (comparePasswords L hash presented \<longleftrightarrow> presented = plain)
        \<and> \<not> comparePasswords L hash hash)"
  by (auto simp: comparePasswords_def)

theorem comparePasswords_hash_equivalence_witness:
  "\<not> isBcrypt ''foobar'' \<and> isBcrypt ''$2a$11$foobar''
   \<and> (\<forall>p. bcryptCompareHashAndPassword exampleLibs ''$2a$11$foobar'' p \<longleftrightarrow> p = ''foobar'')
   \<and> comparePasswords exampleLibs ''foobar'' ''foobar''
   \<and> comparePasswords exampleLibs ''$2a$11$foobar'' ''foobar''
   \<and> \<not> comparePasswords exampleLibs ''$2a$11$foobar'' ''$2a$11$foobar''"
proof -
  have a: "\<not> isBcrypt ''foobar''" and b: "isBcrypt ''$2a$11$foobar''"
    by (simp_all add: isBcrypt_def bcryptPrefix_def)
  have c: "\<forall>p. bcryptCompareHashAndPassword exampleLibs ''$2a$11$foobar'' p \<longleftrightarrow> p = ''foobar''"
    by (auto simp: exampleLibs_def)
  from comparePasswords_hash_equivalence
         [of exampleLibs "''foobar''" "''foobar''" "''foobar''" "''$2a$11$foobar''"] a b c
  show ?thesis by blast
qed

text \<open>
  Claim C3 as stated fails where the stored plaintext itself starts with \<open>$2a$\<close>: the
  secret \<open>$2a$abc\<close> is taken for a hash, and presenting exactly it is rejected.
\<close>

theorem comparePasswords_prefixed_plaintext_counterexample:
  "\<not> (comparePasswords exampleLibs ''$2a$abc'' ''$2a$abc'' \<longleftrightarrow> ''$2a$abc'' = ''$2a$abc'')"
  by (simp add: comparePasswords_def isBcrypt_def bcryptPrefix_def exampleLibs_def)

subsection \<open>Route connections\<close>

text \<open>
  Claim C8. isRouterAuthorized returns what the custom route authenticator returns when one
  is configured; otherwise it accepts when no cluster username is configured; otherwise it
  accepts iff the presented username equals the cluster username and comparePasswords
  accepts the presented password against the cluster password.
\<close>

theorem isRouterAuthorized_decision:
  assumes "s_opts s = Some opts"
  shows "(\<forall>check. o_CustomRouterAuthentication opts = Some check \<longrightarrow>
            isRouterAuthorized L s c = Inr (check c))
       \<and> (o_CustomRouterAuthentication opts = None \<and> cl_Username (o_Cluster opts) = [] \<longrightarrow>
            isRouterAuthorized L s c = Inr True)
       \<and> (o_CustomRouterAuthentication opts = None \<and> cl_Username (o_Cluster opts) \<noteq> [] \<longrightarrow>
            isRouterAuthorized L s c =
              Inr (co_Username (c_opts c) = cl_Username (o_Cluster opts)
                   \<and> comparePasswords L (cl_Password (o_Cluster opts)) (co_Password (c_opts c))))"
  using assms by (auto simp: isRouterAuthorized_def)

theorem isRouterAuthorized_decision_witness:
  "isRouterAuthorized exampleLibs (newServer routeOptions) routeConnect = Inr True
   \<and> isRouterAuthorized exampleLibs (newServer noOptions) (connecting noCredentials []) = Inr True
   \<and> isRouterAuthorized exampleLibs (newServer customRouteOptions) routeConnect = Inr False"
proof -
  have h: "s_opts (newServer routeOptions) = Some routeOptions"
    and h0: "s_opts (newServer noOptions) = Some noOptions"
    and h1: "s_opts (newServer customRouteOptions) = Some customRouteOptions"
    by (simp_all add: example_defs)
  have p: "o_CustomRouterAuthentication routeOptions = None
           \<and> cl_Username (o_Cluster routeOptions) \<noteq> []"
    and p0: "o_CustomRouterAuthentication noOptions = None
           \<and> cl_Username (o_Cluster noOptions) = []"
    and p1: "o_CustomRouterAuthentication customRouteOptions
               = Some (\<lambda>c. co_Username (c_opts c) = ''peer'')"
    by (simp_all add: noOptions_def routeOptions_def customRouteOptions_def)
  have q: "co_Username (c_opts routeConnect) = cl_Username (o_Cluster routeOptions)
       \<and> comparePasswords exampleLibs (cl_Password (o_Cluster routeOptions))
           (co_Password (c_opts routeConnect))"
    by (simp add: example_defs comparePasswords_def isBcrypt_def bcryptPrefix_def)
  have q1: "co_Username (c_opts routeConnect) \<noteq> ''peer''"
    by (simp add: example_defs)
  from isRouterAuthorized_decision [OF h, of exampleLibs routeConnect] p q
  have a: "isRouterAuthorized exampleLibs (newServer routeOptions) routeConnect = Inr True"
    by simp
  from isRouterAuthorized_decision [OF h0, of exampleLibs "connecting noCredentials []"] p0
  have b: "isRouterAuthorized exampleLibs (newServer noOptions) (connecting noCredentials [])
             = Inr True"
    by blast
  from isRouterAuthorized_decision [OF h1, of exampleLibs routeConnect] p1 q1
  have c: "isRouterAuthorized exampleLibs (newServer customRouteOptions) routeConnect
             = Inr False"
    by simp
  from a b c show ?thesis by simp
qed

subsection \<open>Client connections\<close>

lemma s_opts_configureAuthorization:
  "s_opts (configureAuthorization s) = s_opts s"
  by (simp add: configureAuthorization_def setAuthRequired_def Let_def split: option.splits)

lemma AuthRequired_configureAuthorization:
  "s_opts s = Some opts \<Longrightarrow>
   AuthRequired (s_info (configureAuthorization s)) \<longleftrightarrow>
     (o_CustomClientAuthentication opts \<noteq> None \<or> o_Nkeys opts \<noteq> None \<or> o_Users opts \<noteq> None
      \<or> o_Username opts \<noteq> [] \<or> o_Authorization opts \<noteq> [])"
  by (simp add: configureAuthorization_def setAuthRequired_def Let_def split: option.splits)

text \<open>
  Claim C1, as the code has it. isClientAuthorized consults at most one strategy, the one
  the fixed priority order selects (custom callback, then public key, then per-user table,
  then shared token, then shared username and password), and its answer is that strategy's
  answer. It consults none when no custom callback is configured and either authentication
  is not required (the connection is accepted) or no strategy applies to what the
  connection presents (it is rejected). In particular, with an nkey table and a user table
  and a connection presenting both an nkey and a username, only the public-key strategy is
  consulted and no user is registered.
\<close>

theorem isClientAuthorized_at_most_one_strategy:
  assumes "s_opts s = Some opts"
  shows "\<exists>out. isClientAuthorized L s c = Inr out
     \<and> length (consulted out) \<le> 1
     \<and> consulted out = (case strategyFor s c of None \<Rightarrow> [] | Some st \<Rightarrow> [st])
     \<and> accepted out = (case strategyFor s c of
                          None \<Rightarrow> \<not> AuthRequired (s_info s)
                        | Some st \<Rightarrow> verdictOf L s opts c st)
     \<and> (o_CustomClientAuthentication opts = None \<and> AuthRequired (s_info s)
          \<and> s_nkeys s \<noteq> None \<and> s_users s \<noteq> None
          \<and> co_Nkey (c_opts c) \<noteq> [] \<and> co_Username (c_opts c) \<noteq> []
        \<longrightarrow> consulted out = [PublicKey] \<and> registered out = None
            \<and> accepted out = verdictOf L s opts c PublicKey)"
  using assms
  by (auto simp: isClientAuthorized_def strategyFor_def signatureVerifies_def Let_def
           split: option.splits)

theorem isClientAuthorized_at_most_one_strategy_witness:
  "s_opts (newServer mixedOptions) = Some mixedOptions
   \<and> (\<exists>out. isClientAuthorized exampleLibs (newServer mixedOptions) signedConnect = Inr out
         \<and> consulted out = [PublicKey] \<and> registered out = None \<and> accepted out)"
proof -
  have h: "s_opts (newServer mixedOptions) = Some mixedOptions"
    by (simp add: example_defs)
  have pre: "o_CustomClientAuthentication mixedOptions = None
      \<and> AuthRequired (s_info (newServer mixedOptions))
      \<and> s_nkeys (newServer mixedOptions) \<noteq> None \<and> s_users (newServer mixedOptions) \<noteq> None
      \<and> co_Nkey (c_opts signedConnect) \<noteq> [] \<and> co_Username (c_opts signedConnect) \<noteq> []"
    by (simp add: example_defs)
  have v: "verdictOf exampleLibs (newServer mixedOptions) mixedOptions signedConnect PublicKey"
    by (simp add: example_defs mapLookup_def signatureVerifies_def)
  from isClientAuthorized_at_most_one_strategy [OF h, of exampleLibs signedConnect] pre v h
  show ?thesis by blast
qed

text \<open>
  Claim C1 as stated, exactly one strategy for every connection, fails twice: a server with
  nothing configured accepts without consulting any strategy, and a server with only an
  nkey table rejects a connection that presents nothing without consulting any.
\<close>

theorem isClientAuthorized_no_strategy_counterexample:
  "isClientAuthorized exampleLibs (newServer noOptions) (connecting noCredentials [])
     = Inr \<lparr>accepted = True, registered = None, consulted = []\<rparr>
   \<and> isClientAuthorized exampleLibs (newServer nkeyOptions) (connecting noCredentials ''nonce1'')
     = Inr \<lparr>accepted = False, registered = None, consulted = []\<rparr>"
  by (simp add: isClientAuthorized_def example_defs)



lemma isClientAuthorized_registers_only_per_user:
  assumes "isClientAuthorized L s c = Inr out" and "registered out = Some user"
  shows "consulted out = [PerUser] \<and> accepted out
       \<and> mapLookup (s_users s) (co_Username (c_opts c)) = Some user"
  using assms
  by (auto simp: isClientAuthorized_def Let_def split: option.splits if_splits)

text \<open>
  Claim C4 fails on the public-key branch. With a key whose record carries a permission
  set, a connection presenting the key and a good signature is accepted, and the call
  returns without having registered anything: no permission set reaches the connection.
  The per-user branch just below calls \<open>c.RegisterUser(user)\<close> on success.
\<close>

theorem isClientAuthorized_nkey_registers_nothing:
  "isClientAuthorized exampleLibs (newServer nkeyOptions) signedConnect
     = Inr \<lparr>accepted = True, registered = None, consulted = [PublicKey]\<rparr>
   \<and> mapLookup (s_nkeys (newServer nkeyOptions)) (co_Nkey (c_opts signedConnect))
     = Some \<lparr>nk_Nkey = ''UDKT'', nk_Permissions = Some 7\<rparr>"
  by (simp add: isClientAuthorized_def example_defs mapLookup_def)

text \<open>
  Claim C7. After configureAuthorization, on a server whose options are set,
  \<open>info.AuthRequired\<close> is true iff a custom client authenticator, an nkey list, a user
  list, a single username or a shared token is configured; and whenever it is false,
  isClientAuthorized accepts every connection, having consulted no strategy and registered
  no user, whatever the connection presents.
\<close>

theorem configureAuthorization_authRequired_iff:
  assumes "s_opts s = Some opts"
  shows "(AuthRequired (s_info (configureAuthorization s)) \<longleftrightarrow>
            (o_CustomClientAuthentication opts \<noteq> None \<or> o_Nkeys opts \<noteq> None
             \<or> o_Users opts \<noteq> None \<or> o_Username opts \<noteq> [] \<or> o_Authorization opts \<noteq> []))
       \<and> (\<not> AuthRequired (s_info (configureAuthorization s)) \<longrightarrow>
            (\<forall>c. isClientAuthorized L (configureAuthorization s) c =
                   Inr \<lparr>accepted = True, registered = None, consulted = []\<rparr>))"
proof (intro conjI impI allI)
  show "AuthRequired (s_info (configureAuthorization s)) \<longleftrightarrow>
            (o_CustomClientAuthentication opts \<noteq> None \<or> o_Nkeys opts \<noteq> None
             \<or> o_Users opts \<noteq> None \<or> o_Username opts \<noteq> [] \<or> o_Authorization opts \<noteq> [])"
    using assms by (rule AuthRequired_configureAuthorization)
next
  fix c
  assume off: "\<not> AuthRequired (s_info (configureAuthorization s))"
  then have "o_CustomClientAuthentication opts = None"
    using AuthRequired_configureAuthorization [OF assms] by blast
  with off assms
  show "isClientAuthorized L (configureAuthorization s) c =
          Inr \<lparr>accepted = True, registered = None, consulted = []\<rparr>"
    by (simp add: isClientAuthorized_def s_opts_configureAuthorization)
qed

theorem configureAuthorization_authRequired_iff_witness:
  "s_opts (newServer noOptions) = Some noOptions
   \<and> \<not> AuthRequired (s_info (configureAuthorization (newServer noOptions)))
   \<and> isClientAuthorized exampleLibs (configureAuthorization (newServer noOptions)) signedConnect
       = Inr \<lparr>accepted = True, registered = None, consulted = []\<rparr>"
proof -
  have h: "s_opts (newServer noOptions) = Some noOptions"
    by (simp add: example_defs)
  have n: "\<not> (o_CustomClientAuthentication noOptions \<noteq> None \<or> o_Nkeys noOptions \<noteq> None
             \<or> o_Users noOptions \<noteq> None \<or> o_Username noOptions \<noteq> []
             \<or> o_Authorization noOptions \<noteq> [])"
    by (simp add: noOptions_def)
  from configureAuthorization_authRequired_iff [OF h, of exampleLibs] n h
  show ?thesis by blast
qed

text \<open>
  Claim C10. Let the options configure only a shared username, non-empty, with the empty
  password (no custom authenticator, nkey list, user list or token), on a server without a
  user table, and with no nkey table or a connection that presents no nkey. After
  configureAuthorization, \<open>info.AuthRequired\<close> is true, and a connection presenting that
  username and the empty password is accepted by the shared username and password
  strategy.
\<close>

theorem isClientAuthorized_empty_shared_password:
  assumes "s_opts s = Some opts"
    and "o_CustomClientAuthentication opts = None"
    and "o_Nkeys opts = None" and "o_Users opts = None" and "o_Authorization opts = []"
    and "o_Username opts \<noteq> []" and "o_Password opts = []"
    and "s_users s = None" and "s_nkeys s = None \<or> co_Nkey (c_opts c) = []"
    and "co_Username (c_opts c) = o_Username opts" and "co_Password (c_opts c) = []"
  shows "AuthRequired (s_info (configureAuthorization s))
       \<and> isClientAuthorized L (configureAuthorization s) c =
           Inr \<lparr>accepted = True, registered = None, consulted = [SharedUserPass]\<rparr>"
  using assms
  by (auto simp: isClientAuthorized_def configureAuthorization_def setAuthRequired_def
                 comparePasswords_def isBcrypt_def bcryptPrefix_def)

theorem isClientAuthorized_empty_shared_password_witness:
  "AuthRequired (s_info (configureAuthorization (newServer emptyPasswordOptions)))
   \<and> isClientAuthorized exampleLibs (configureAuthorization (newServer emptyPasswordOptions))
        (connecting (noCredentials\<lparr>co_Username := ''derek''\<rparr>) ''nonce1'')
       = Inr \<lparr>accepted = True, registered = None, consulted = [SharedUserPass]\<rparr>"
  by (rule isClientAuthorized_empty_shared_password [where opts = emptyPasswordOptions])
     (simp_all add: example_defs)

subsection \<open>The revocation sweep\<close>

lemma removedSubs_Cons:
  "removedSubs allows p subs (sid # rest) =
     (if unauthorized allows p subs sid then insert (the (subs sid)) (removedSubs allows p subs rest)
      else removedSubs allows p subs rest)"
  by (auto simp: removedSubs_def unauthorized_def split: option.splits)

lemma keptSubs_Cons:
  "keptSubs allows p subs (sid # rest) cur =
     (if unauthorized allows p subs sid then keptSubs allows p subs rest (cur(sid := None))
      else keptSubs allows p subs rest cur)"
  by (auto simp: keptSubs_def)

lemma notices_Cons:
  "notices allows quote p subs (sid # rest) =
     (if unauthorized allows p subs sid
      then violationNotice quote (the (subs sid)) # notices allows quote p subs rest
      else notices allows quote p subs rest)"
  by (simp add: notices_def)

lemma diff_insert_slRemove: "sl - insert sub A = slRemove sub sl - A"
  by (auto simp: slRemove_def)

lemma sweptState_skip:
  assumes u: "\<not> unauthorized allows p subs sid"
  shows "sweptState allows quote p subs (sid # rest) s c = sweptState allows quote p subs rest s c"
  using u by (simp add: sweptState_def removedSubs_Cons keptSubs_Cons notices_Cons)

lemma sweptState_remove:
  assumes u: "unauthorized allows p subs sid" and sub: "subs sid = Some sub"
  shows "sweptState allows quote p subs rest (s\<lparr>s_sl := slRemove sub (s_sl s)\<rparr>)
           (sendErr (violationNotice quote sub) (c\<lparr>c_subs := (c_subs c)(sid := None)\<rparr>))
         = sweptState allows quote p subs (sid # rest) s c"
  using u sub
  by (simp add: sweptState_def removedSubs_Cons keptSubs_Cons notices_Cons
                diff_insert_slRemove sendErr_def)

lemma sweepSubs_swept:
  "c_perms c = Some p \<Longrightarrow>
   sweepSubs allows quote subs order (s, c) = sweptState allows quote p subs order s c"
proof (induction order arbitrary: s c)
  case Nil
  then show ?case by (simp add: sweptState_def removedSubs_def keptSubs_def notices_def)
next
  case (Cons sid rest)
  show ?case
  proof (cases "unauthorized allows p subs sid")
    case False
    then have "sweepSubs allows quote subs (sid # rest) (s, c) = sweepSubs allows quote subs rest (s, c)"
      using Cons.prems by (simp add: unauthorized_def canSubscribe_def split: option.splits)
    with Cons.IH [OF Cons.prems] sweptState_skip [OF False] show ?thesis by simp
  next
    case True
    then obtain sub where sub: "subs sid = Some sub" and deny: "\<not> allows p (sub_subject sub)"
      by (auto simp: unauthorized_def split: option.splits)
    let ?s = "s\<lparr>s_sl := slRemove sub (s_sl s)\<rparr>"
    let ?c = "sendErr (violationNotice quote sub) (c\<lparr>c_subs := (c_subs c)(sid := None)\<rparr>)"
    have pc: "c_perms ?c = Some p" using Cons.prems by (simp add: sendErr_def)
    have "sweepSubs allows quote subs (sid # rest) (s, c) = sweepSubs allows quote subs rest (?s, ?c)"
      using sub deny Cons.prems by (simp add: canSubscribe_def)
    also have "\<dots> = sweptState allows quote p subs rest ?s ?c"
      using Cons.IH [OF pc] .
    also have "\<dots> = sweptState allows quote p subs (sid # rest) s c"
      using sweptState_remove [OF True sub] .
    finally show ?thesis .
  qed
qed


lemma sweptState_clean:
  assumes "\<And>sid. \<not> unauthorized allows p subs sid"
  shows "sweptState allows quote p subs order s c = (s, c)"
proof -
  have "removedSubs allows p subs order = {}"
    using assms by (simp add: removedSubs_def)
  moreover have "keptSubs allows p subs order (c_subs c) = c_subs c"
    using assms by (simp add: keptSubs_def)
  moreover have "notices allows quote p subs order = []"
    using assms by (simp add: notices_def)
  ultimately show ?thesis by (simp add: sweptState_def)
qed

text \<open>
  Claim C6. For a connection with a bound permission set, and any order in which the loop
  visits the keys of the snapshot once each, removeUnauthorizedSubs keeps in \<open>c.subs\<close>
  exactly the subscriptions whose subject passes canSubscribe, removes from the routing
  index exactly those of the connection that fail, and sends after the earlier notices one
  permissions-violation notice for each removed key, naming the subject and the sid of its
  subscription. It leaves the bound permissions alone, and a second sweep, in any order,
  changes nothing and sends nothing.
\<close>

theorem removeUnauthorizedSubs_sweep:
  assumes perms: "c_perms c = Some p"
    and order: "distinct order" "set order = dom (c_subs c)"
  shows "\<exists>s' c'. removeUnauthorizedSubs allows quote order s c = (s', c')
     \<and> c_subs c' = (\<lambda>sid. case c_subs c sid of
                            None \<Rightarrow> None
                          | Some sub \<Rightarrow> if canSubscribe allows c (sub_subject sub)
                                        then Some sub else None)
     \<and> s_sl s' = s_sl s - {sub \<in> ran (c_subs c). \<not> canSubscribe allows c (sub_subject sub)}
     \<and> c_out c' = c_out c @ map (\<lambda>sid. violationNotice quote (the (c_subs c sid)))
                                (filter (unauthorized allows p (c_subs c)) order)
     \<and> distinct (filter (unauthorized allows p (c_subs c)) order)
     \<and> set (filter (unauthorized allows p (c_subs c)) order)
         = {sid. \<exists>sub. c_subs c sid = Some sub \<and> \<not> canSubscribe allows c (sub_subject sub)}
     \<and> c_perms c' = c_perms c
     \<and> (\<forall>order'. removeUnauthorizedSubs allows quote order' s' c' = (s', c'))"
proof -
  let ?subs = "c_subs c"
  let ?s = "s\<lparr>s_sl := s_sl s - removedSubs allows p ?subs order\<rparr>"
  let ?c = "c\<lparr>c_subs := keptSubs allows p ?subs order ?subs,
              c_out := c_out c @ notices allows quote p ?subs order\<rparr>"
  have can: "canSubscribe allows c subj = allows p subj" for subj
    using perms by (simp add: canSubscribe_def)
  have run: "removeUnauthorizedSubs allows quote order s c = (?s, ?c)"
    using perms sweepSubs_swept [OF perms, of allows quote ?subs order s]
    by (simp add: removeUnauthorizedSubs_def sweptState_def)
  have kept: "c_subs ?c = (\<lambda>sid. case ?subs sid of
                            None \<Rightarrow> None
                          | Some sub \<Rightarrow> if canSubscribe allows c (sub_subject sub)
                                        then Some sub else None)"
  proof -
    have "keptSubs allows p ?subs order ?subs sid =
            (case ?subs sid of
               None \<Rightarrow> None
             | Some sub \<Rightarrow> if canSubscribe allows c (sub_subject sub) then Some sub else None)"
      for sid
      using order by (cases "?subs sid") (auto simp: keptSubs_def unauthorized_def can)
    then show ?thesis by (simp add: fun_eq_iff)
  qed
  have index: "s_sl ?s = s_sl s - {sub \<in> ran ?subs. \<not> canSubscribe allows c (sub_subject sub)}"
  proof -
    have "removedSubs allows p ?subs order
            = {sub \<in> ran ?subs. \<not> canSubscribe allows c (sub_subject sub)}"
      using order by (auto simp: removedSubs_def unauthorized_def can ran_def)
    then show ?thesis by simp
  qed
  have out: "c_out ?c = c_out c @ map (\<lambda>sid. violationNotice quote (the (?subs sid)))
                                (filter (unauthorized allows p ?subs) order)"
    by (simp add: notices_def)
  have d: "distinct (filter (unauthorized allows p ?subs) order)"
    using order by simp
  have st: "set (filter (unauthorized allows p ?subs) order)
         = {sid. \<exists>sub. ?subs sid = Some sub \<and> \<not> canSubscribe allows c (sub_subject sub)}"
    using order by (auto simp: unauthorized_def can split: option.splits)
  have pc: "c_perms ?c = Some p" using perms by simp
  have clean: "\<not> unauthorized allows p (c_subs ?c) sid" for sid
    using order by (auto simp: keptSubs_def unauthorized_def split: option.splits)
  have idem: "removeUnauthorizedSubs allows quote order' ?s ?c = (?s, ?c)" for order'
  proof -
    have "removeUnauthorizedSubs allows quote order' ?s ?c
            = sweptState allows quote p (c_subs ?c) order' ?s ?c"
      using pc sweepSubs_swept [OF pc, of allows quote "c_subs ?c" order' ?s]
      by (simp add: removeUnauthorizedSubs_def)
    also have "\<dots> = (?s, ?c)"
      using clean by (rule sweptState_clean)
    finally show ?thesis .
  qed
  from run kept index out d st pc perms idem show ?thesis
    by (intro exI [of _ ?s] exI [of _ ?c] conjI allI) simp_all
qed


theorem removeUnauthorizedSubs_sweep_witness:
  "c_perms alice = Some [''a.b''] \<and> distinct [''1'', ''2'']
   \<and> set [''1'', ''2''] = dom (c_subs alice)
   \<and> (\<exists>s' c'. removeUnauthorizedSubs allowsListed quoteAscii [''1'', ''2''] hub alice = (s', c')
         \<and> c_subs c' ''1'' = Some subAB \<and> c_subs c' ''2'' = None
         \<and> s_sl s' = {subAB}
         \<and> c_out c' = [violationNotice quoteAscii subSecret]
         \<and> removeUnauthorizedSubs allowsListed quoteAscii [''2'', ''1''] s' c' = (s', c'))"
proof -
  have p: "c_perms alice = Some [''a.b'']" and d: "distinct [''1'', ''2'']"
    and o: "set [''1'', ''2''] = dom (c_subs alice)"
    by (simp_all add: alice_def connecting_def insert_commute)
  have ne: "subAB \<noteq> subSecret" by (simp add: subAB_def subSecret_def)
  have can: "canSubscribe allowsListed alice (sub_subject subAB)"
    "\<not> canSubscribe allowsListed alice (sub_subject subSecret)"
    by (simp_all add: canSubscribe_def allowsListed_def alice_def subAB_def subSecret_def)
  have rn: "ran (c_subs alice) = {subAB, subSecret}"
    by (simp add: alice_def connecting_def insert_commute)
  have hs: "s_sl hub = {subAB, subSecret}" by (simp add: hub_def)
  have sl: "s_sl hub - {sub \<in> ran (c_subs alice).
                          \<not> canSubscribe allowsListed alice (sub_subject sub)} = {subAB}"
    unfolding rn hs using ne can by auto
  have f: "filter (unauthorized allowsListed [''a.b''] (c_subs alice)) [''1'', ''2''] = [''2'']"
    by (simp add: unauthorized_def allowsListed_def alice_def subAB_def subSecret_def)
  have out: "c_out alice = []" and s2: "c_subs alice ''2'' = Some subSecret"
    and s1: "c_subs alice ''1'' = Some subAB"
    by (simp_all add: alice_def connecting_def)
  from removeUnauthorizedSubs_sweep [OF p d o, of allowsListed quoteAscii hub]
  obtain s' where "\<exists>c'. removeUnauthorizedSubs allowsListed quoteAscii [''1'', ''2''] hub alice = (s', c')
     \<and> c_subs c' = (\<lambda>sid. case c_subs alice sid of
                            None \<Rightarrow> None
                          | Some sub \<Rightarrow> if canSubscribe allowsListed alice (sub_subject sub)
                                        then Some sub else None)
     \<and> s_sl s' = s_sl hub - {sub \<in> ran (c_subs alice). \<not> canSubscribe allowsListed alice (sub_subject sub)}
     \<and> c_out c' = c_out alice @ map (\<lambda>sid. violationNotice quoteAscii (the (c_subs alice sid)))
                                (filter (unauthorized allowsListed [''a.b''] (c_subs alice)) [''1'', ''2''])
     \<and> distinct (filter (unauthorized allowsListed [''a.b''] (c_subs alice)) [''1'', ''2''])
     \<and> set (filter (unauthorized allowsListed [''a.b''] (c_subs alice)) [''1'', ''2''])
         = {sid. \<exists>sub. c_subs alice sid = Some sub \<and> \<not> canSubscribe allowsListed alice (sub_subject sub)}
     \<and> c_perms c' = c_perms alice
     \<and> (\<forall>order'. removeUnauthorizedSubs allowsListed quoteAscii order' s' c' = (s', c'))" ..
  then obtain c' where all:
    "removeUnauthorizedSubs allowsListed quoteAscii [''1'', ''2''] hub alice = (s', c')
     \<and> c_subs c' = (\<lambda>sid. case c_subs alice sid of
                            None \<Rightarrow> None
                          | Some sub \<Rightarrow> if canSubscribe allowsListed alice (sub_subject sub)
                                        then Some sub else None)
     \<and> s_sl s' = s_sl hub - {sub \<in> ran (c_subs alice). \<not> canSubscribe allowsListed alice (sub_subject sub)}
     \<and> c_out c' = c_out alice @ map (\<lambda>sid. violationNotice quoteAscii (the (c_subs alice sid)))
                                (filter (unauthorized allowsListed [''a.b''] (c_subs alice)) [''1'', ''2''])
     \<and> distinct (filter (unauthorized allowsListed [''a.b''] (c_subs alice)) [''1'', ''2''])
     \<and> set (filter (unauthorized allowsListed [''a.b''] (c_subs alice)) [''1'', ''2''])
         = {sid. \<exists>sub. c_subs alice sid = Some sub \<and> \<not> canSubscribe allowsListed alice (sub_subject sub)}
     \<and> c_perms c' = c_perms alice
     \<and> (\<forall>order'. removeUnauthorizedSubs allowsListed quoteAscii order' s' c' = (s', c'))" ..
  from all have r: "removeUnauthorizedSubs allowsListed quoteAscii [''1'', ''2''] hub alice = (s', c')"
    by (rule conjunct1)
  from all have k: "c_subs c' = (\<lambda>sid. case c_subs alice sid of
                            None \<Rightarrow> None
                          | Some sub \<Rightarrow> if canSubscribe allowsListed alice (sub_subject sub)
                                        then Some sub else None)"
    by (elim conjE)
  from all have i: "s_sl s' = s_sl hub - {sub \<in> ran (c_subs alice).
                          \<not> canSubscribe allowsListed alice (sub_subject sub)}"
    by (elim conjE)
  from all have n: "c_out c' = c_out alice @ map (\<lambda>sid. violationNotice quoteAscii (the (c_subs alice sid)))
                                (filter (unauthorized allowsListed [''a.b''] (c_subs alice))
                                   [''1'', ''2''])"
    by (elim conjE)
  from all have again: "\<forall>order'. removeUnauthorizedSubs allowsListed quoteAscii order' s' c' = (s', c')"
    by (elim conjE)
  have k1: "c_subs c' ''1'' = Some subAB" and k2: "c_subs c' ''2'' = None"
    using s1 s2 can by (simp_all add: k)
  have i': "s_sl s' = {subAB}" using i sl by simp
  have n': "c_out c' = [violationNotice quoteAscii subSecret]"
    using n f out s2 by simp
  have a': "removeUnauthorizedSubs allowsListed quoteAscii [''2'', ''1''] s' c' = (s', c')"
    using again by (rule spec)
  from p d o r k1 k2 i' n' a' show ?thesis
    by (intro conjI exI [of _ s'] exI [of _ c'])
qed

text \<open>
  Claim C9. For a connection whose bound permission set is nil, removeUnauthorizedSubs
  returns at once: the connection, with its subscriptions and notices, and the server, with
  its routing index, are as before, whatever the subscriptions are.
\<close>

theorem removeUnauthorizedSubs_nil_perms:
  "c_perms c = None \<Longrightarrow> removeUnauthorizedSubs allows quote order s c = (s, c)"
  by (simp add: removeUnauthorizedSubs_def)

theorem removeUnauthorizedSubs_nil_perms_witness:
  "c_perms (alice\<lparr>c_perms := None\<rparr>) = None
   \<and> removeUnauthorizedSubs allowsListed quoteAscii [''1'', ''2''] hub (alice\<lparr>c_perms := None\<rparr>)
       = (hub, alice\<lparr>c_perms := None\<rparr>)"
proof -
  have h: "c_perms (alice\<lparr>c_perms := None\<rparr>) = None" by simp
  from removeUnauthorizedSubs_nil_perms [OF h, of allowsListed quoteAscii "[''1'', ''2'']" hub] h
  show ?thesis by simp
qed

subsection \<open>Cloning permissions\<close>

lemma sliceElems_length: "sliceElems h sl = Some vs \<Longrightarrow> length vs = sl_len sl"
  by (auto simp: sliceElems_def split: option.splits if_splits)

lemma sliceElems_dom: "sliceElems h sl = Some vs \<Longrightarrow> sl_base sl \<in> dom (h_arrays h)"
  by (auto simp: sliceElems_def split: option.splits if_splits)

lemma sliceElems_frame:
  "h_arrays h' (sl_base sl) = h_arrays h (sl_base sl) \<Longrightarrow> sliceElems h' sl = sliceElems h sl"
  by (simp add: sliceElems_def)

lemma sliceValue_frame:
  "\<forall>a \<in> sliceStorage s. h_arrays h' a = h_arrays h a \<Longrightarrow> sliceValue h' s = sliceValue h s"
  by (cases s) (simp_all add: sliceValue_def sliceStorage_def sliceElems_def)

lemma sliceValue_bounded:
  "heapOK h \<Longrightarrow> sliceValue h s = Some v \<Longrightarrow> sliceStorage s \<subseteq> {..<h_next h}"
  by (cases s) (auto simp: sliceValue_def sliceStorage_def heapOK_def dest!: sliceElems_dom)

lemma copyStrings_fresh:
  assumes src: "sliceElems h src = Some vs" and len: "length vs = n"
    and d: "h_arrays h a = Some (replicate n [])"
  shows "copyStrings \<lparr>sl_base = a, sl_off = 0, sl_len = n\<rparr> src h
           = Some (h\<lparr>h_arrays := (h_arrays h)(a \<mapsto> vs)\<rparr>)"
  using src len d by (simp add: copyStrings_def)


lemma cloneStrings_setAllow:
  assumes ok: "heapOK h" and src: "sliceElems h src = Some vs"
    and c: "h_subjperms h clone = Some csp"
  shows "cloneStrings setAllow clone src h =
           Some (h\<lparr>h_arrays := (h_arrays h)(h_next h \<mapsto> vs),
                   h_subjperms := (h_subjperms h)(clone \<mapsto>
                     csp\<lparr>Allow := Some \<lparr>sl_base = h_next h, sl_off = 0, sl_len = sl_len src\<rparr>\<rparr>),
                   h_next := Suc (h_next h)\<rparr>)"
proof -
  have ne: "sl_base src \<noteq> h_next h"
    using ok sliceElems_dom [OF src] by (auto simp: heapOK_def)
  let ?h1 = "h\<lparr>h_arrays := (h_arrays h)(h_next h \<mapsto> replicate (sl_len src) []),
               h_next := Suc (h_next h)\<rparr>"
  let ?h2 = "?h1\<lparr>h_subjperms := (h_subjperms h)(clone \<mapsto>
                     csp\<lparr>Allow := Some \<lparr>sl_base = h_next h, sl_off = 0, sl_len = sl_len src\<rparr>\<rparr>)\<rparr>"
  have s2: "sliceElems ?h2 src = Some vs"
    using src ne by (simp add: sliceElems_def)
  have "copyStrings \<lparr>sl_base = h_next h, sl_off = 0, sl_len = sl_len src\<rparr> src ?h2
          = Some (?h2\<lparr>h_arrays := (h_arrays ?h2)(h_next h \<mapsto> vs)\<rparr>)"
    by (rule copyStrings_fresh [OF s2 sliceElems_length [OF src]]) simp
  then show ?thesis
    using c by (simp add: cloneStrings_def makeStrings_def setAllow_def)
qed

lemma cloneStrings_setDeny:
  assumes ok: "heapOK h" and src: "sliceElems h src = Some vs"
    and c: "h_subjperms h clone = Some csp"
  shows "cloneStrings setDeny clone src h =
           Some (h\<lparr>h_arrays := (h_arrays h)(h_next h \<mapsto> vs),
                   h_subjperms := (h_subjperms h)(clone \<mapsto>
                     csp\<lparr>Deny := Some \<lparr>sl_base = h_next h, sl_off = 0, sl_len = sl_len src\<rparr>\<rparr>),
                   h_next := Suc (h_next h)\<rparr>)"
proof -
  have ne: "sl_base src \<noteq> h_next h"
    using ok sliceElems_dom [OF src] by (auto simp: heapOK_def)
  let ?h1 = "h\<lparr>h_arrays := (h_arrays h)(h_next h \<mapsto> replicate (sl_len src) []),
               h_next := Suc (h_next h)\<rparr>"
  let ?h2 = "?h1\<lparr>h_subjperms := (h_subjperms h)(clone \<mapsto>
                     csp\<lparr>Deny := Some \<lparr>sl_base = h_next h, sl_off = 0, sl_len = sl_len src\<rparr>\<rparr>)\<rparr>"
  have s2: "sliceElems ?h2 src = Some vs"
    using src ne by (simp add: sliceElems_def)
  have "copyStrings \<lparr>sl_base = h_next h, sl_off = 0, sl_len = sl_len src\<rparr> src ?h2
          = Some (?h2\<lparr>h_arrays := (h_arrays ?h2)(h_next h \<mapsto> vs)\<rparr>)"
    by (rule copyStrings_fresh [OF s2 sliceElems_length [OF src]]) simp
  then show ?thesis
    using c by (simp add: cloneStrings_def makeStrings_def setDeny_def)
qed


lemma fieldCloned_same:
  assumes ok: "heapOK h" and c: "h_subjperms h clone = Some csp"
  shows "fieldCloned h clone csp None None h"
  using ok c by (simp add: fieldCloned_def sliceValue_def sliceStorage_def fun_upd_idem)

lemma fieldCloned_fresh:
  assumes ok: "heapOK h" and c: "h_subjperms h clone = Some csp" and len: "length vs = n"
  shows "fieldCloned h clone csp' (Some \<lparr>sl_base = h_next h, sl_off = 0, sl_len = n\<rparr>) (Some vs)
           (h\<lparr>h_arrays := (h_arrays h)(h_next h \<mapsto> vs),
              h_subjperms := (h_subjperms h)(clone \<mapsto> csp'),
              h_next := Suc (h_next h)\<rparr>)"
proof -
  have cl: "clone < h_next h" using ok c by (auto simp: heapOK_def)
  have "heapOK (h\<lparr>h_arrays := (h_arrays h)(h_next h \<mapsto> vs),
              h_subjperms := (h_subjperms h)(clone \<mapsto> csp'),
              h_next := Suc (h_next h)\<rparr>)"
    using ok cl by (auto simp: heapOK_def less_Suc_eq)
  then show ?thesis
    using len by (simp add: fieldCloned_def sliceValue_def sliceStorage_def sliceElems_def)
qed

lemma clone_allow_step:
  assumes ok: "heapOK h" and c: "h_subjperms h clone = Some csp" and e: "Allow csp = None"
    and v: "sliceValue h s = Some v"
  shows "\<exists>h' d. (case s of None \<Rightarrow> Some h | Some src \<Rightarrow> cloneStrings setAllow clone src h)
                  = Some h'
               \<and> fieldCloned h clone (csp\<lparr>Allow := d\<rparr>) d v h'"
proof (cases s)
  case None
  with v have "v = None" by (simp add: sliceValue_def)
  moreover have "csp\<lparr>Allow := None\<rparr> = csp" using e by simp
  ultimately show ?thesis
    using None fieldCloned_same [OF ok c] by (intro exI [of _ h] exI [of _ None]) simp
next
  case (Some src)
  with v obtain vs where vs: "sliceElems h src = Some vs" and vv: "v = Some vs"
    by (auto simp: sliceValue_def)
  show ?thesis
    using Some vv cloneStrings_setAllow [OF ok vs c]
      fieldCloned_fresh [OF ok c sliceElems_length [OF vs]]
    by (intro exI conjI) simp_all
qed

lemma clone_deny_step:
  assumes ok: "heapOK h" and c: "h_subjperms h clone = Some csp" and e: "Deny csp = None"
    and v: "sliceValue h s = Some v"
  shows "\<exists>h' d. (case s of None \<Rightarrow> Some h | Some src \<Rightarrow> cloneStrings setDeny clone src h)
                  = Some h'
               \<and> fieldCloned h clone (csp\<lparr>Deny := d\<rparr>) d v h'"
proof (cases s)
  case None
  with v have "v = None" by (simp add: sliceValue_def)
  moreover have "csp\<lparr>Deny := None\<rparr> = csp" using e by simp
  ultimately show ?thesis
    using None fieldCloned_same [OF ok c] by (intro exI [of _ h] exI [of _ None]) simp
next
  case (Some src)
  with v obtain vs where vs: "sliceElems h src = Some vs" and vv: "v = Some vs"
    by (auto simp: sliceValue_def)
  show ?thesis
    using Some vv cloneStrings_setDeny [OF ok vs c]
      fieldCloned_fresh [OF ok c sliceElems_length [OF vs]]
    by (intro exI conjI) simp_all
qed

lemma SubjectPermission_clone_spec:
  assumes ok: "heapOK h" and sp: "h_subjperms h a = Some sp"
    and al: "sliceValue h (Allow sp) = Some al" and dn: "sliceValue h (Deny sp) = Some dn"
  shows "\<exists>h'. SubjectPermission_clone (Some a) h = Some (Some (h_next h), h')
     \<and> heapOK h' \<and> h_next h < h_next h' \<and> sameOn {..<h_next h} h h'
     \<and> subjectPermissionValue h' (Some (h_next h)) = Some (Some (al, dn))
     \<and> subjectPermissionStorage h' (Some (h_next h)) \<subseteq> {h_next h..<h_next h'}"
proof -
  let ?n = "h_next h"
  let ?h0 = "h\<lparr>h_subjperms := (h_subjperms h)(?n \<mapsto> \<lparr>Allow = None, Deny = None\<rparr>),
               h_next := Suc ?n\<rparr>"
  have an: "a < ?n" using ok sp by (auto simp: heapOK_def)
  have ok0: "heapOK ?h0" using ok by (auto simp: heapOK_def less_Suc_eq)
  have sp0: "h_subjperms ?h0 a = Some sp" using sp an by simp
  have c0: "h_subjperms ?h0 ?n = Some \<lparr>Allow = None, Deny = None\<rparr>" by simp
  have "sliceValue ?h0 (Allow sp) = sliceValue h (Allow sp)"
    by (rule sliceValue_frame) simp
  then have al0: "sliceValue ?h0 (Allow sp) = Some al" using al by simp
  from clone_allow_step [OF ok0 c0 _ al0]
  obtain h1 d1 where
    r1: "(case Allow sp of None \<Rightarrow> Some ?h0 | Some src \<Rightarrow> cloneStrings setAllow ?n src ?h0) = Some h1"
    and f1: "fieldCloned ?h0 ?n \<lparr>Allow = d1, Deny = None\<rparr> d1 al h1"
    by auto
  have ok1: "heapOK h1" and n1: "Suc ?n \<le> h_next h1"
    and sp1': "h_subjperms h1 = (h_subjperms ?h0)(?n \<mapsto> \<lparr>Allow = d1, Deny = None\<rparr>)"
    and pm1: "h_perms h1 = h_perms h"
    and ar1: "\<And>x. x < Suc ?n \<Longrightarrow> h_arrays h1 x = h_arrays h x"
    and v1: "sliceValue h1 d1 = Some al"
    and st1: "sliceStorage d1 \<subseteq> {Suc ?n..<h_next h1}"
    using f1 by (simp_all add: fieldCloned_def)
  have sp1: "h_subjperms h1 a = Some sp" using sp1' sp an by simp
  have c1: "h_subjperms h1 ?n = Some \<lparr>Allow = d1, Deny = None\<rparr>" using sp1' by simp
  have "sliceStorage (Deny sp) \<subseteq> {..<?n}" using ok dn by (rule sliceValue_bounded)
  then have "\<forall>x \<in> sliceStorage (Deny sp). h_arrays h1 x = h_arrays h x"
    using ar1 by auto
  then have "sliceValue h1 (Deny sp) = sliceValue h (Deny sp)" by (rule sliceValue_frame)
  then have dn1: "sliceValue h1 (Deny sp) = Some dn" using dn by simp
  from clone_deny_step [OF ok1 c1 _ dn1]
  obtain h2 d2 where
    r2: "(case Deny sp of None \<Rightarrow> Some h1 | Some src \<Rightarrow> cloneStrings setDeny ?n src h1) = Some h2"
    and f2: "fieldCloned h1 ?n \<lparr>Allow = d1, Deny = d2\<rparr> d2 dn h2"
    by auto
  have ok2: "heapOK h2" and n2: "h_next h1 \<le> h_next h2"
    and sp2: "h_subjperms h2 = (h_subjperms h1)(?n \<mapsto> \<lparr>Allow = d1, Deny = d2\<rparr>)"
    and pm2: "h_perms h2 = h_perms h1"
    and ar2: "\<And>x. x < h_next h1 \<Longrightarrow> h_arrays h2 x = h_arrays h1 x"
    and v2: "sliceValue h2 d2 = Some dn"
    and st2: "sliceStorage d2 \<subseteq> {h_next h1..<h_next h2}"
    using f2 by (simp_all add: fieldCloned_def)
  have run: "SubjectPermission_clone (Some a) h = Some (Some ?n, h2)"
    using sp0 r1 sp1 r2 by (simp add: SubjectPermission_clone_def newSubjectPermission_def)
  have same: "sameOn {..<?n} h h2"
    using ar1 ar2 n1 sp2 sp1' pm1 pm2 by (auto simp: sameOn_def)
  have "\<forall>x \<in> sliceStorage d1. h_arrays h2 x = h_arrays h1 x"
    using st1 ar2 by auto
  then have "sliceValue h2 d1 = sliceValue h1 d1" by (rule sliceValue_frame)
  then have v1': "sliceValue h2 d1 = Some al" using v1 by simp
  have val: "subjectPermissionValue h2 (Some ?n) = Some (Some (al, dn))"
    using sp2 v1' v2 by (simp add: subjectPermissionValue_def)
  have sto: "subjectPermissionStorage h2 (Some ?n) \<subseteq> {?n..<h_next h2}"
    using sp2 st1 st2 n1 n2 by (auto simp: subjectPermissionStorage_def)
  have lt: "?n < h_next h2" using n1 n2 by simp
  from run ok2 lt same val sto show ?thesis by blast
qed

lemma sameOn_mono: "sameOn B h h' \<Longrightarrow> A \<subseteq> B \<Longrightarrow> sameOn A h h'"
  by (auto simp: sameOn_def)

lemma subjectPermission_frame:
  assumes "sameOn (subjectPermissionStorage h p) h h'"
  shows "subjectPermissionValue h' p = subjectPermissionValue h p"
    and "subjectPermissionStorage h' p = subjectPermissionStorage h p"
proof -
  show "subjectPermissionValue h' p = subjectPermissionValue h p"
  proof (cases p)
    case None
    then show ?thesis by (simp add: subjectPermissionValue_def)
  next
    case (Some a)
    with assms have e: "h_subjperms h' a = h_subjperms h a"
      by (simp add: sameOn_def subjectPermissionStorage_def)
    show ?thesis
    proof (cases "h_subjperms h a")
      case None
      with e Some show ?thesis by (simp add: subjectPermissionValue_def)
    next
      case sp: (Some sp)
      have "\<forall>x \<in> sliceStorage (Allow sp). h_arrays h' x = h_arrays h x"
        and "\<forall>x \<in> sliceStorage (Deny sp). h_arrays h' x = h_arrays h x"
        using assms Some sp by (auto simp: sameOn_def subjectPermissionStorage_def)
      then have "sliceValue h' (Allow sp) = sliceValue h (Allow sp)"
        and "sliceValue h' (Deny sp) = sliceValue h (Deny sp)"
        by (auto intro: sliceValue_frame)
      with e Some sp show ?thesis by (simp add: subjectPermissionValue_def)
    qed
  qed
  show "subjectPermissionStorage h' p = subjectPermissionStorage h p"
  proof (cases p)
    case None
    then show ?thesis by (simp add: subjectPermissionStorage_def)
  next
    case (Some a)
    with assms have "h_subjperms h' a = h_subjperms h a"
      by (simp add: sameOn_def subjectPermissionStorage_def)
    with Some show ?thesis by (simp add: subjectPermissionStorage_def)
  qed
qed

lemma subjectPermission_bounded:
  assumes ok: "heapOK h" and v: "subjectPermissionValue h p = Some v"
  shows "subjectPermissionStorage h p \<subseteq> {..<h_next h}"
proof (cases p)
  case None
  then show ?thesis by (simp add: subjectPermissionStorage_def)
next
  case (Some a)
  with v obtain sp al dn where sp: "h_subjperms h a = Some sp"
    and al: "sliceValue h (Allow sp) = Some al" and dn: "sliceValue h (Deny sp) = Some dn"
    by (auto simp: subjectPermissionValue_def split: option.splits)
  have "a < h_next h" using ok sp by (auto simp: heapOK_def)
  with Some sp sliceValue_bounded [OF ok al] sliceValue_bounded [OF ok dn]
  show ?thesis by (auto simp: subjectPermissionStorage_def)
qed

lemma permissions_frame:
  assumes "sameOn (permissionsStorage h a) h h'"
  shows "permissionsValue h' a = permissionsValue h a"
    and "permissionsStorage h' a = permissionsStorage h a"
proof -
  have e: "h_perms h' a = h_perms h a"
    using assms by (simp add: sameOn_def permissionsStorage_def)
  have both: "permissionsValue h' a = permissionsValue h a
            \<and> permissionsStorage h' a = permissionsStorage h a"
  proof (cases "h_perms h a")
    case None
    with e show ?thesis by (simp add: permissionsValue_def permissionsStorage_def)
  next
    case (Some pm)
    have "sameOn (subjectPermissionStorage h (Publish pm)) h h'"
      and "sameOn (subjectPermissionStorage h (Subscribe pm)) h h'"
      using assms Some by (auto simp: permissionsStorage_def elim: sameOn_mono)
    then have "subjectPermissionValue h' (Publish pm) = subjectPermissionValue h (Publish pm)"
      and "subjectPermissionValue h' (Subscribe pm) = subjectPermissionValue h (Subscribe pm)"
      and "subjectPermissionStorage h' (Publish pm) = subjectPermissionStorage h (Publish pm)"
      and "subjectPermissionStorage h' (Subscribe pm) = subjectPermissionStorage h (Subscribe pm)"
      by (simp_all add: subjectPermission_frame)
    with e Some show ?thesis by (simp add: permissionsValue_def permissionsStorage_def)
  qed
  then show "permissionsValue h' a = permissionsValue h a"
    and "permissionsStorage h' a = permissionsStorage h a" by simp_all
qed

lemma permissions_bounded:
  assumes ok: "heapOK h" and v: "permissionsValue h a = Some v"
  shows "permissionsStorage h a \<subseteq> {..<h_next h}"
proof -
  from v obtain pm pu su where pm: "h_perms h a = Some pm"
    and pu: "subjectPermissionValue h (Publish pm) = Some pu"
    and su: "subjectPermissionValue h (Subscribe pm) = Some su"
    by (auto simp: permissionsValue_def split: option.splits)
  have "a < h_next h" using ok pm by (auto simp: heapOK_def)
  with pm subjectPermission_bounded [OF ok pu] subjectPermission_bounded [OF ok su]
  show ?thesis by (auto simp: permissionsStorage_def)
qed

lemma pointerCloned_same:
  assumes "heapOK h" and "h_perms h clone = Some cpm"
  shows "pointerCloned h clone cpm None None h"
  using assms
  by (simp add: pointerCloned_def subjectPermissionValue_def subjectPermissionStorage_def)

lemma pointerCloned_fresh:
  assumes ok: "heapOK h" and c: "h_perms h clone = Some cpm"
    and ok1: "heapOK h1" and lt: "h_next h < h_next h1" and same: "sameOn {..<h_next h} h h1"
    and val: "subjectPermissionValue h1 (Some (h_next h)) = Some v"
    and sto: "subjectPermissionStorage h1 (Some (h_next h)) \<subseteq> {h_next h..<h_next h1}"
  shows "pointerCloned h clone cpm' (Some (h_next h)) v
           (h1\<lparr>h_perms := (h_perms h1)(clone \<mapsto> cpm')\<rparr>)"
proof -
  let ?h' = "h1\<lparr>h_perms := (h_perms h1)(clone \<mapsto> cpm')\<rparr>"
  have cl: "clone < h_next h" using ok c by (auto simp: heapOK_def)
  have ok': "heapOK ?h'" using ok1 cl lt by (auto simp: heapOK_def)
  have fr: "sameOn (subjectPermissionStorage h1 (Some (h_next h))) h1 ?h'"
    using sto cl by (auto simp: sameOn_def)
  have val': "subjectPermissionValue ?h' (Some (h_next h)) = Some v"
    using subjectPermission_frame(1) [OF fr] val by simp
  have sto': "subjectPermissionStorage ?h' (Some (h_next h)) \<subseteq> {h_next h..<h_next ?h'}"
    using subjectPermission_frame(2) [OF fr] sto by simp
  have old: "\<forall>x. x < h_next h \<and> x \<noteq> clone \<longrightarrow> h_perms ?h' x = h_perms h x"
    and old2: "\<forall>x. x < h_next h \<longrightarrow> h_arrays ?h' x = h_arrays h x
                                   \<and> h_subjperms ?h' x = h_subjperms h x"
    using same by (auto simp: sameOn_def)
  show ?thesis
    unfolding pointerCloned_def using ok' lt val' sto' old old2 by simp
qed

lemma setField_run:
  assumes ok: "heapOK h" and c: "h_perms h clone = Some cpm"
    and same: "sameOn {..<h_next h} h h1"
  shows "setPublish clone q h1 = Some (h1\<lparr>h_perms := (h_perms h1)(clone \<mapsto> cpm\<lparr>Publish := q\<rparr>)\<rparr>)"
    and "setSubscribe clone q h1 = Some (h1\<lparr>h_perms := (h_perms h1)(clone \<mapsto> cpm\<lparr>Subscribe := q\<rparr>)\<rparr>)"
proof -
  have "clone < h_next h" using ok c by (auto simp: heapOK_def)
  then have "h_perms h1 clone = Some cpm" using same c by (simp add: sameOn_def)
  then show "setPublish clone q h1 = Some (h1\<lparr>h_perms := (h_perms h1)(clone \<mapsto> cpm\<lparr>Publish := q\<rparr>)\<rparr>)"
    and "setSubscribe clone q h1 = Some (h1\<lparr>h_perms := (h_perms h1)(clone \<mapsto> cpm\<lparr>Subscribe := q\<rparr>)\<rparr>)"
    by (simp_all add: setPublish_def setSubscribe_def)
qed

lemma subjectPermissionValue_Some:
  assumes "subjectPermissionValue h (Some a) = Some v"
  obtains sp al dn where "h_subjperms h a = Some sp" and "sliceValue h (Allow sp) = Some al"
    and "sliceValue h (Deny sp) = Some dn" and "v = Some (al, dn)"
  using assms by (auto simp: subjectPermissionValue_def split: option.splits)

lemma clone_publish_step:
  assumes ok: "heapOK h" and c: "h_perms h clone = Some cpm" and e: "Publish cpm = None"
    and v: "subjectPermissionValue h q = Some v"
  shows "\<exists>h' q'. (if q \<noteq> None
                  then Option.bind (SubjectPermission_clone q h) (\<lambda>(q', h1). setPublish clone q' h1)
                  else Some h) = Some h'
               \<and> pointerCloned h clone (cpm\<lparr>Publish := q'\<rparr>) q' v h'"
proof (cases q)
  case None
  with v have "v = None" by (simp add: subjectPermissionValue_def)
  moreover have "cpm\<lparr>Publish := None\<rparr> = cpm" using e by simp
  ultimately show ?thesis
    using None pointerCloned_same [OF ok c] by (intro exI [of _ h] exI [of _ None]) simp
next
  case (Some a)
  with v obtain sp al dn where sp: "h_subjperms h a = Some sp"
    and al: "sliceValue h (Allow sp) = Some al" and dn: "sliceValue h (Deny sp) = Some dn"
    and vv: "v = Some (al, dn)"
    by (auto elim: subjectPermissionValue_Some)
  from SubjectPermission_clone_spec [OF ok sp al dn]
  obtain h1 where run: "SubjectPermission_clone (Some a) h = Some (Some (h_next h), h1)"
    and ok1: "heapOK h1" and lt: "h_next h < h_next h1" and same: "sameOn {..<h_next h} h h1"
    and val: "subjectPermissionValue h1 (Some (h_next h)) = Some (Some (al, dn))"
    and sto: "subjectPermissionStorage h1 (Some (h_next h)) \<subseteq> {h_next h..<h_next h1}"
    by blast
  have "pointerCloned h clone (cpm\<lparr>Publish := Some (h_next h)\<rparr>) (Some (h_next h)) v
          (h1\<lparr>h_perms := (h_perms h1)(clone \<mapsto> cpm\<lparr>Publish := Some (h_next h)\<rparr>)\<rparr>)"
    using pointerCloned_fresh [OF ok c ok1 lt same _ sto] val vv by simp
  then show ?thesis
    using Some run setField_run(1) [OF ok c same]
    by (intro exI conjI) simp_all
qed

lemma clone_subscribe_step:
  assumes ok: "heapOK h" and c: "h_perms h clone = Some cpm" and e: "Subscribe cpm = None"
    and v: "subjectPermissionValue h q = Some v"
  shows "\<exists>h' q'. (if q \<noteq> None
                  then Option.bind (SubjectPermission_clone q h) (\<lambda>(q', h1). setSubscribe clone q' h1)
                  else Some h) = Some h'
               \<and> pointerCloned h clone (cpm\<lparr>Subscribe := q'\<rparr>) q' v h'"
proof (cases q)
  case None
  with v have "v = None" by (simp add: subjectPermissionValue_def)
  moreover have "cpm\<lparr>Subscribe := None\<rparr> = cpm" using e by simp
  ultimately show ?thesis
    using None pointerCloned_same [OF ok c] by (intro exI [of _ h] exI [of _ None]) simp
next
  case (Some a)
  with v obtain sp al dn where sp: "h_subjperms h a = Some sp"
    and al: "sliceValue h (Allow sp) = Some al" and dn: "sliceValue h (Deny sp) = Some dn"
    and vv: "v = Some (al, dn)"
    by (auto elim: subjectPermissionValue_Some)
  from SubjectPermission_clone_spec [OF ok sp al dn]
  obtain h1 where run: "SubjectPermission_clone (Some a) h = Some (Some (h_next h), h1)"
    and ok1: "heapOK h1" and lt: "h_next h < h_next h1" and same: "sameOn {..<h_next h} h h1"
    and val: "subjectPermissionValue h1 (Some (h_next h)) = Some (Some (al, dn))"
    and sto: "subjectPermissionStorage h1 (Some (h_next h)) \<subseteq> {h_next h..<h_next h1}"
    by blast
  have "pointerCloned h clone (cpm\<lparr>Subscribe := Some (h_next h)\<rparr>) (Some (h_next h)) v
          (h1\<lparr>h_perms := (h_perms h1)(clone \<mapsto> cpm\<lparr>Subscribe := Some (h_next h)\<rparr>)\<rparr>)"
    using pointerCloned_fresh [OF ok c ok1 lt same _ sto] val vv by simp
  then show ?thesis
    using Some run setField_run(2) [OF ok c same]
    by (intro exI conjI) simp_all
qed

lemma Permissions_clone_spec:
  assumes ok: "heapOK h" and pm: "h_perms h a = Some pm"
    and pu: "subjectPermissionValue h (Publish pm) = Some pu"
    and su: "subjectPermissionValue h (Subscribe pm) = Some su"
  shows "\<exists>h'. Permissions_clone (Some a) h = Some (Some (h_next h), h')
     \<and> heapOK h' \<and> h_next h < h_next h' \<and> sameOn {..<h_next h} h h'
     \<and> permissionsValue h' (h_next h) = Some (pu, su)
     \<and> permissionsStorage h' (h_next h) \<subseteq> {h_next h..<h_next h'}"
proof -
  let ?n = "h_next h"
  let ?h0 = "h\<lparr>h_perms := (h_perms h)(?n \<mapsto> \<lparr>Publish = None, Subscribe = None\<rparr>),
               h_next := Suc ?n\<rparr>"
  have an: "a < ?n" using ok pm by (auto simp: heapOK_def)
  have ok0: "heapOK ?h0" using ok by (auto simp: heapOK_def less_Suc_eq)
  have pm0: "h_perms ?h0 a = Some pm" using pm an by simp
  have c0: "h_perms ?h0 ?n = Some \<lparr>Publish = None, Subscribe = None\<rparr>" by simp
  have bpu: "subjectPermissionStorage h (Publish pm) \<subseteq> {..<?n}"
    using ok pu by (rule subjectPermission_bounded)
  have bsu: "subjectPermissionStorage h (Subscribe pm) \<subseteq> {..<?n}"
    using ok su by (rule subjectPermission_bounded)
  have "sameOn (subjectPermissionStorage h (Publish pm)) h ?h0"
    using bpu by (auto simp: sameOn_def)
  then have pu0: "subjectPermissionValue ?h0 (Publish pm) = Some pu"
    using pu by (simp add: subjectPermission_frame(1))
  from clone_publish_step [OF ok0 c0 _ pu0]
  obtain h1 q1 where
    r1: "(if Publish pm \<noteq> None
          then Option.bind (SubjectPermission_clone (Publish pm) ?h0)
                 (\<lambda>(q', h1). setPublish ?n q' h1)
          else Some ?h0) = Some h1"
    and f1: "pointerCloned ?h0 ?n \<lparr>Publish = q1, Subscribe = None\<rparr> q1 pu h1"
    by auto
  have ok1: "heapOK h1" and n1: "Suc ?n \<le> h_next h1"
    and c1: "h_perms h1 ?n = Some \<lparr>Publish = q1, Subscribe = None\<rparr>"
    and pm1': "\<And>x. x < ?n \<Longrightarrow> h_perms h1 x = h_perms h x"
    and ar1: "\<And>x. x < ?n \<Longrightarrow> h_arrays h1 x = h_arrays h x"
    and sj1: "\<And>x. x < ?n \<Longrightarrow> h_subjperms h1 x = h_subjperms h x"
    and v1: "subjectPermissionValue h1 q1 = Some pu"
    and st1: "subjectPermissionStorage h1 q1 \<subseteq> {Suc ?n..<h_next h1}"
    using f1 by (simp_all add: pointerCloned_def)
  have pm1: "h_perms h1 a = Some pm" using pm1' [OF an] pm by simp
  have "sameOn (subjectPermissionStorage h (Subscribe pm)) h h1"
    using bsu pm1' ar1 sj1 by (auto simp: sameOn_def)
  then have su1: "subjectPermissionValue h1 (Subscribe pm) = Some su"
    using su by (simp add: subjectPermission_frame(1))
  from clone_subscribe_step [OF ok1 c1 _ su1]
  obtain h2 q2 where
    r2: "(if Subscribe pm \<noteq> None
          then Option.bind (SubjectPermission_clone (Subscribe pm) h1)
                 (\<lambda>(q', h3). setSubscribe ?n q' h3)
          else Some h1) = Some h2"
    and f2: "pointerCloned h1 ?n \<lparr>Publish = q1, Subscribe = q2\<rparr> q2 su h2"
    by auto
  have ok2: "heapOK h2" and n2: "h_next h1 \<le> h_next h2"
    and c2: "h_perms h2 ?n = Some \<lparr>Publish = q1, Subscribe = q2\<rparr>"
    and pm2: "\<And>x. x < h_next h1 \<Longrightarrow> x \<noteq> ?n \<Longrightarrow> h_perms h2 x = h_perms h1 x"
    and ar2: "\<And>x. x < h_next h1 \<Longrightarrow> h_arrays h2 x = h_arrays h1 x"
    and sj2: "\<And>x. x < h_next h1 \<Longrightarrow> h_subjperms h2 x = h_subjperms h1 x"
    and v2: "subjectPermissionValue h2 q2 = Some su"
    and st2: "subjectPermissionStorage h2 q2 \<subseteq> {h_next h1..<h_next h2}"
    using f2 by (simp_all add: pointerCloned_def)
  have run: "Permissions_clone (Some a) h = Some (Some ?n, h2)"
    using pm0 r1 pm1 r2 by (simp add: Permissions_clone_def newPermissions_def)
  have same: "sameOn {..<?n} h h2"
    using pm1' ar1 sj1 pm2 ar2 sj2 n1 by (auto simp: sameOn_def)
  have fr: "sameOn (subjectPermissionStorage h1 q1) h1 h2"
    using st1 pm2 ar2 sj2 by (auto simp: sameOn_def)
  have v1': "subjectPermissionValue h2 q1 = Some pu"
    using subjectPermission_frame(1) [OF fr] v1 by simp
  have st1': "subjectPermissionStorage h2 q1 \<subseteq> {Suc ?n..<h_next h1}"
    using subjectPermission_frame(2) [OF fr] st1 by simp
  have val: "permissionsValue h2 ?n = Some (pu, su)"
    using c2 v1' v2 by (simp add: permissionsValue_def)
  have sto: "permissionsStorage h2 ?n \<subseteq> {?n..<h_next h2}"
    using c2 st1' st2 n1 n2 by (auto simp: permissionsStorage_def)
  have lt: "?n < h_next h2" using n1 n2 by simp
  from run ok2 lt same val sto show ?thesis by blast
qed

text \<open>
  Claim C5. In a well-formed store, for a non-nil \<open>p\<close> whose value can be read (no pointer
  or slice leaves the store), \<open>p.clone()\<close> returns a non-nil \<open>q\<close> in a well-formed store
  where \<open>q\<close> and \<open>p\<close> stand for the same publish and subscribe allow and deny lists, nil
  where \<open>p\<close> has nil, and are stored at disjoint addresses: whatever is written to the
  objects and arrays of the clone leaves the value of the original as it is, and whatever is
  written to those of the original leaves the value of the clone as it is.
\<close>

theorem Permissions_clone_deep:
  assumes ok: "heapOK h" and v: "permissionsValue h p = Some v"
  shows "\<exists>q h'. Permissions_clone (Some p) h = Some (Some q, h')
     \<and> heapOK h'
     \<and> permissionsValue h' q = Some v \<and> permissionsValue h' p = Some v
     \<and> permissionsStorage h' q \<inter> permissionsStorage h' p = {}
     \<and> (\<forall>h''. sameOn (- permissionsStorage h' q) h' h'' \<longrightarrow> permissionsValue h'' p = Some v)
     \<and> (\<forall>h''. sameOn (- permissionsStorage h' p) h' h'' \<longrightarrow> permissionsValue h'' q = Some v)"
proof -
  from v obtain pm pu su where pm: "h_perms h p = Some pm"
    and pu: "subjectPermissionValue h (Publish pm) = Some pu"
    and su: "subjectPermissionValue h (Subscribe pm) = Some su"
    and vv: "v = (pu, su)"
    by (auto simp: permissionsValue_def split: option.splits)
  from Permissions_clone_spec [OF ok pm pu su]
  obtain h' where run: "Permissions_clone (Some p) h = Some (Some (h_next h), h')"
    and ok': "heapOK h'" and same: "sameOn {..<h_next h} h h'"
    and val: "permissionsValue h' (h_next h) = Some (pu, su)"
    and sto: "permissionsStorage h' (h_next h) \<subseteq> {h_next h..<h_next h'}"
    by blast
  have bp: "permissionsStorage h p \<subseteq> {..<h_next h}"
    using ok v by (rule permissions_bounded)
  have fr: "sameOn (permissionsStorage h p) h h'"
    using same bp by (rule sameOn_mono)
  have valp: "permissionsValue h' p = Some v"
    using permissions_frame(1) [OF fr] v by simp
  have stop: "permissionsStorage h' p = permissionsStorage h p"
    using permissions_frame(2) [OF fr] .
  have disj: "permissionsStorage h' (h_next h) \<inter> permissionsStorage h' p = {}"
  proof -
    have "permissionsStorage h' (h_next h) \<inter> {..<h_next h} = {}" using sto by auto
    then show ?thesis using bp stop by blast
  qed
  have keep_p: "permissionsValue h'' p = Some v"
    if "sameOn (- permissionsStorage h' (h_next h)) h' h''" for h''
  proof -
    have "sameOn (permissionsStorage h' p) h' h''"
      using that disj by (auto elim: sameOn_mono)
    then show ?thesis using permissions_frame(1) valp by simp
  qed
  have keep_q: "permissionsValue h'' (h_next h) = Some v"
    if "sameOn (- permissionsStorage h' p) h' h''" for h''
  proof -
    have "sameOn (permissionsStorage h' (h_next h)) h' h''"
      using that disj by (auto elim: sameOn_mono)
    then show ?thesis using permissions_frame(1) val vv by simp
  qed
  from run ok' val vv valp disj keep_p keep_q show ?thesis
    by (intro exI [of _ "h_next h"] exI [of _ h'] conjI allI impI) simp_all
qed

theorem Permissions_clone_deep_witness:
  "heapOK exampleHeap
   \<and> permissionsValue exampleHeap 3
       = Some (Some (Some [''a.*'', ''b''], Some [''secret.>'']), None)
   \<and> (\<exists>q h'. Permissions_clone (Some 3) exampleHeap = Some (Some q, h')
         \<and> permissionsValue h' q = Some (Some (Some [''a.*'', ''b''], Some [''secret.>'']), None)
         \<and> permissionsStorage h' q \<inter> permissionsStorage h' 3 = {})"
proof -
  have ok: "heapOK exampleHeap"
    by (simp add: heapOK_def exampleHeap_def)
  have v: "permissionsValue exampleHeap 3
             = Some (Some (Some [''a.*'', ''b''], Some [''secret.>'']), None)"
    by (simp add: permissionsValue_def subjectPermissionValue_def sliceValue_def
                  sliceElems_def exampleHeap_def)
  from Permissions_clone_deep [OF ok v] ok v show ?thesis by blast
qed

lemma Permissions_clone_example:
  "Permissions_clone (Some 3) exampleHeap =
     Some (Some 4,
       \<lparr>h_arrays = [0 \<mapsto> [''a.*'', ''b''], 1 \<mapsto> [''secret.>''],
                    6 \<mapsto> [''a.*'', ''b''], 7 \<mapsto> [''secret.>'']],
        h_subjperms = [2 \<mapsto> \<lparr>Allow = Some \<lparr>sl_base = 0, sl_off = 0, sl_len = 2\<rparr>,
                             Deny = Some \<lparr>sl_base = 1, sl_off = 0, sl_len = 1\<rparr>\<rparr>,
                       5 \<mapsto> \<lparr>Allow = Some \<lparr>sl_base = 6, sl_off = 0, sl_len = 2\<rparr>,
                             Deny = Some \<lparr>sl_base = 7, sl_off = 0, sl_len = 1\<rparr>\<rparr>],
        h_perms = [3 \<mapsto> \<lparr>Publish = Some 2, Subscribe = None\<rparr>,
                   4 \<mapsto> \<lparr>Publish = Some 5, Subscribe = None\<rparr>],
        h_next = 8\<rparr>)"
  by (simp add: Permissions_clone_def SubjectPermission_clone_def newPermissions_def
        newSubjectPermission_def cloneStrings_def makeStrings_def copyStrings_def
        setAllow_def setDeny_def setPublish_def setSubscribe_def sliceElems_def
        exampleHeap_def fun_upd_twist numeral_eq_Suc)

end
